theory Spec2Isabelle
  imports Main "HOL-Library.Word" "HOL-Library.Multiset" "HOL-Library.Code_Target_Nat"
begin

section \<open>The byte arena and its DataView\<close>

text \<open>
  The arena is an \<^verbatim>\<open>ArrayBuffer\<close>: a fixed-length, zero-initialised sequence of bytes.
  All reads and writes of the allocator go through a \<^verbatim>\<open>DataView\<close> that spans the whole
  buffer, with \<^verbatim>\<open>getUint32\<close> and \<^verbatim>\<open>setUint32\<close> in their default big-endian byte order.
  An access whose four bytes do not lie inside the buffer throws a \<^verbatim>\<open>RangeError\<close>.
  The numbers of the program are modelled as natural numbers; a number written with
  \<^verbatim>\<open>setUint32\<close> is reduced modulo \<open>2^32\<close>, which is what the conversion to an unsigned
  32-bit integer does, and arithmetic outside the buffer does not wrap.
\<close>

type_synonym byte = "8 word"

datatype error =
    RangeError          \<comment> \<open>DataView or typed-array access outside the buffer\<close>
  | FreeListFull        \<comment> \<open>\<^verbatim>\<open>Error('Free block list is full')\<close>\<close>
  | StructureNotFound   \<comment> \<open>\<^verbatim>\<open>Error('Structure with ID ... not found')\<close>\<close>
  | TypeError           \<comment> \<open>property access on \<^verbatim>\<open>undefined\<close>\<close>
  | IndexOutOfBounds    \<comment> \<open>\<^verbatim>\<open>Error('Index out of bounds')\<close>\<close>

text \<open>The four bytes at \<open>off\<close> read as a big-endian number, and a number stored there.\<close>

definition beUint32 :: "byte list \<Rightarrow> nat \<Rightarrow> nat" where
  "beUint32 buf off =
     unat (buf ! off) * 16777216 + unat (buf ! (off + 1)) * 65536
       + unat (buf ! (off + 2)) * 256 + unat (buf ! (off + 3))"

definition putUint32 :: "byte list \<Rightarrow> nat \<Rightarrow> nat \<Rightarrow> byte list" where
  "putUint32 buf off v =
     buf[off := of_nat (v div 16777216),
         off + 1 := of_nat (v div 65536),
         off + 2 := of_nat (v div 256),
         off + 3 := of_nat v]"

definition getUint32 :: "byte list \<Rightarrow> nat \<Rightarrow> error + nat" where
  "getUint32 buf off =
     (if off + 4 \<le> length buf then Inr (beUint32 buf off) else Inl RangeError)"

definition setUint32 :: "byte list \<Rightarrow> nat \<Rightarrow> nat \<Rightarrow> error + byte list" where
  "setUint32 buf off v =
     (if off + 4 \<le> length buf then Inr (putUint32 buf off v) else Inl RangeError)"

section \<open>Objects\<close>

record MemoryBlockRef =
  offset :: nat
  size' :: nat

text \<open>
  The fields \<^verbatim>\<open>_length\<close>, \<^verbatim>\<open>_capacity\<close> and \<^verbatim>\<open>_block\<close> of a \<^verbatim>\<open>ResizableArray\<close>. The object
  is shared between its user and the allocator's \<^verbatim>\<open>_structures\<close> map, so its fields are
  kept in one place, the map entry, and the object is referred to by its \<^verbatim>\<open>__ID\<close>,
  the key of that entry.
\<close>

record ResizableArray =
  length' :: nat
  capacity :: nat
  block :: MemoryBlockRef

record Allocator =
  buffer :: "byte list"
  maxFreeBlocks :: nat
  structures :: "nat \<rightharpoonup> nat \<times> ResizableArray"
  nextId :: nat

text \<open>
  A method either returns a value or throws; in both cases the object is left in the
  state reached so far. A result is therefore a pair of the outcome and the state.
\<close>

type_synonym 'a result = "(error + 'a) \<times> Allocator"

definition thenDo :: "'a result \<Rightarrow> ('a \<Rightarrow> Allocator \<Rightarrow> 'b result) \<Rightarrow> 'b result" where
  "thenDo r f = (case r of (Inl e, a) \<Rightarrow> (Inl e, a) | (Inr x, a) \<Rightarrow> f x a)"

definition viewGet :: "Allocator \<Rightarrow> nat \<Rightarrow> nat result" where
  "viewGet a off = (getUint32 (buffer a) off, a)"

definition viewSet :: "Allocator \<Rightarrow> nat \<Rightarrow> nat \<Rightarrow> unit result" where
  "viewSet a off v =
     (case setUint32 (buffer a) off v of
        Inl e \<Rightarrow> (Inl e, a)
      | Inr b \<Rightarrow> (Inr (), a\<lparr>buffer := b\<rparr>))"

section \<open>Allocator\<close>

text \<open>The constructor; when it throws there is no allocator.\<close>

definition newAllocator :: "nat \<Rightarrow> nat \<Rightarrow> error + Allocator" where
  "newAllocator initialBufferSize maxFree =
     (let initialOffset = 12 + maxFree * 8 in
      case setUint32 (replicate initialBufferSize 0) 0 initialOffset of
        Inl e \<Rightarrow> Inl e
      | Inr b1 \<Rightarrow>
          (case setUint32 b1 4 0 of
             Inl e \<Rightarrow> Inl e
           | Inr b2 \<Rightarrow>
               (case setUint32 b2 8 0 of
                  Inl e \<Rightarrow> Inl e
                | Inr b3 \<Rightarrow>
                    Inr \<lparr>buffer = b3, maxFreeBlocks = maxFree,
                         structures = Map.empty, nextId = 0\<rparr>)))"

text \<open>
  \<^verbatim>\<open>removeFreeBlock\<close>: the count is decremented first; \<^verbatim>\<open>0 - 1\<close> is \<open>-1\<close> in the
  program, stored as \<open>2^32 - 1\<close>, and no index is below it.
\<close>

definition removeFreeBlock :: "Allocator \<Rightarrow> nat \<Rightarrow> unit result" where
  "removeFreeBlock a index =
     thenDo (viewGet a 4) (\<lambda>c a.
     thenDo (viewSet a 4 (if c = 0 then 4294967295 else c - 1)) (\<lambda>_ a.
       if c \<noteq> 0 \<and> index < c - 1 then
         thenDo (viewGet a (12 + (c - 1) * 8)) (\<lambda>lastOff a.
         thenDo (viewSet a (12 + index * 8) lastOff) (\<lambda>_ a.
         thenDo (viewGet a (12 + (c - 1) * 8 + 4)) (\<lambda>lastSize a.
           viewSet a (12 + index * 8 + 4) lastSize)))
       else (Inr (), a)))"

text \<open>
  The restore method of a \<^verbatim>\<open>ResizableArray\<close>: the block is re-anchored first, then
  length and capacity are read from the buffer, one after the other.
\<close>

definition loadMetadata :: "byte list \<Rightarrow> ResizableArray \<Rightarrow> (error + unit) \<times> ResizableArray" where
  "loadMetadata buf r =
     (case getUint32 buf (offset (block r)) of
        Inl e \<Rightarrow> (Inl e, r)
      | Inr l \<Rightarrow>
          (case getUint32 buf (offset (block r) + 4) of
             Inl e \<Rightarrow> (Inl e, r\<lparr>length' := l\<rparr>)
           | Inr c \<Rightarrow> (Inr (), r\<lparr>length' := l, capacity := c\<rparr>)))"

definition restore :: "byte list \<Rightarrow> ResizableArray \<Rightarrow> nat \<Rightarrow> (error + unit) \<times> ResizableArray" where
  "restore buf r off =
     loadMetadata buf (r\<lparr>block := \<lparr>offset = off, size' = capacity r * 4 + 8\<rparr>\<rparr>)"

text \<open>
  \<^verbatim>\<open>restoreStructures\<close>: the loop over the registry entries \<open>i, i + 1, \<dots>\<close>, by recursion
  on the number of entries still to visit. An id without an entry in the map makes
  \<^verbatim>\<open>this._structures.get(id)!.struct\<close> a property access on \<^verbatim>\<open>undefined\<close>.
\<close>

fun restoreStructures_loop :: "Allocator \<Rightarrow> nat \<Rightarrow> nat \<Rightarrow> unit result" where
  "restoreStructures_loop a i 0 = (Inr (), a)"
| "restoreStructures_loop a i (Suc n) =
     (let structOffset = 12 + maxFreeBlocks a * 8 + i * 8 in
      case getUint32 (buffer a) structOffset of
        Inl e \<Rightarrow> (Inl e, a)
      | Inr sid \<Rightarrow>
          (case getUint32 (buffer a) (structOffset + 4) of
             Inl e \<Rightarrow> (Inl e, a)
           | Inr off \<Rightarrow>
               (case structures a sid of
                  None \<Rightarrow> (Inl TypeError, a)
                | Some (regOff, struct) \<Rightarrow>
                    (case restore (buffer a) struct off of
                       (Inl e, struct') \<Rightarrow>
                          (Inl e, a\<lparr>structures := (structures a)(sid \<mapsto> (regOff, struct'))\<rparr>)
                     | (Inr _, struct') \<Rightarrow>
                          restoreStructures_loop
                            (a\<lparr>structures := (structures a)(sid \<mapsto> (regOff, struct'))\<rparr>)
                            (i + 1) n))))"

definition restoreStructures :: "Allocator \<Rightarrow> unit result" where
  "restoreStructures a =
     thenDo (viewGet a 8) (\<lambda>structuresCount a. restoreStructures_loop a 0 structuresCount)"

definition expandBuffer :: "Allocator \<Rightarrow> unit result" where
  "expandBuffer a =
     restoreStructures (a\<lparr>buffer := buffer a @ replicate (length (buffer a)) 0\<rparr>)"

text \<open>
  \<^verbatim>\<open>allocate\<close>: the first-fit loop over the free table, by recursion on the number of
  entries still to visit; \<open>None\<close> when the loop ends without a hit.
\<close>

fun allocate_loop :: "Allocator \<Rightarrow> nat \<Rightarrow> nat \<Rightarrow> nat \<Rightarrow> MemoryBlockRef option result" where
  "allocate_loop a sz i 0 = (Inr None, a)"
| "allocate_loop a sz i (Suc n) =
     (case getUint32 (buffer a) (12 + i * 8) of
        Inl e \<Rightarrow> (Inl e, a)
      | Inr blockOffset \<Rightarrow>
          (case getUint32 (buffer a) (12 + i * 8 + 4) of
             Inl e \<Rightarrow> (Inl e, a)
           | Inr blockSize \<Rightarrow>
               if blockSize \<ge> sz then
                 (if blockSize - sz > 0 then
                    thenDo (viewSet a (12 + i * 8) (blockOffset + sz)) (\<lambda>_ a.
                    thenDo (viewSet a (12 + i * 8 + 4) (blockSize - sz)) (\<lambda>_ a.
                      (Inr (Some \<lparr>offset = blockOffset, size' = sz\<rparr>), a)))
                  else
                    thenDo (removeFreeBlock a i) (\<lambda>_ a.
                      (Inr (Some \<lparr>offset = blockOffset, size' = sz\<rparr>), a)))
               else allocate_loop a sz (i + 1) n))"

definition allocate :: "Allocator \<Rightarrow> nat \<Rightarrow> MemoryBlockRef result" where
  "allocate a sz =
     thenDo (viewGet a 4) (\<lambda>freeBlockCount a.
     thenDo (allocate_loop a sz 0 freeBlockCount) (\<lambda>found a.
       case found of
         Some b \<Rightarrow> (Inr b, a)
       | None \<Rightarrow>
           thenDo (viewGet a 0) (\<lambda>off a.
           thenDo (if off + sz > length (buffer a)
                   then thenDo (expandBuffer a) (\<lambda>_ a. viewGet a 0)
                   else (Inr off, a)) (\<lambda>off a.
           thenDo (viewSet a 0 (off + sz)) (\<lambda>_ a.
             (Inr \<lparr>offset = off, size' = sz\<rparr>, a))))))"

text \<open>
  \<^verbatim>\<open>coalesceFreeBlocks\<close>: the entries are read into a temporary array, sorted by
  offset (the sort of the language is stable, as insertion by key is), merged from
  left to right into \<^verbatim>\<open>mergedBlocks\<close>, written back, and counted.
\<close>

fun readFreeBlocks :: "byte list \<Rightarrow> nat \<Rightarrow> nat \<Rightarrow> error + MemoryBlockRef list" where
  "readFreeBlocks buf i 0 = Inr []"
| "readFreeBlocks buf i (Suc n) =
     (case getUint32 buf (12 + i * 8) of
        Inl e \<Rightarrow> Inl e
      | Inr blockOffset \<Rightarrow>
          (case getUint32 buf (12 + i * 8 + 4) of
             Inl e \<Rightarrow> Inl e
           | Inr blockSize \<Rightarrow>
               (case readFreeBlocks buf (i + 1) n of
                  Inl e \<Rightarrow> Inl e
                | Inr bs \<Rightarrow> Inr (\<lparr>offset = blockOffset, size' = blockSize\<rparr> # bs))))"

fun mergeBlocks :: "MemoryBlockRef list \<Rightarrow> MemoryBlockRef list \<Rightarrow> MemoryBlockRef list" where
  "mergeBlocks mergedBlocks [] = mergedBlocks"
| "mergeBlocks mergedBlocks (b # bs) =
     (if mergedBlocks = []
         \<or> offset (last mergedBlocks) + size' (last mergedBlocks) < offset b
      then mergeBlocks (mergedBlocks @ [b]) bs
      else mergeBlocks
             (butlast mergedBlocks
                @ [(last mergedBlocks)\<lparr>size' := size' (last mergedBlocks) + size' b\<rparr>]) bs)"

fun writeFreeBlocks :: "Allocator \<Rightarrow> nat \<Rightarrow> MemoryBlockRef list \<Rightarrow> unit result" where
  "writeFreeBlocks a i [] = (Inr (), a)"
| "writeFreeBlocks a i (b # bs) =
     (case setUint32 (buffer a) (12 + i * 8) (offset b) of
        Inl e \<Rightarrow> (Inl e, a)
      | Inr b1 \<Rightarrow>
          (case setUint32 b1 (12 + i * 8 + 4) (size' b) of
             Inl e \<Rightarrow> (Inl e, a\<lparr>buffer := b1\<rparr>)
           | Inr b2 \<Rightarrow> writeFreeBlocks (a\<lparr>buffer := b2\<rparr>) (i + 1) bs))"

definition coalesceFreeBlocks :: "Allocator \<Rightarrow> unit result" where
  "coalesceFreeBlocks a =
     thenDo (viewGet a 4) (\<lambda>freeBlockCount a.
       case readFreeBlocks (buffer a) 0 freeBlockCount of
         Inl e \<Rightarrow> (Inl e, a)
       | Inr freeBlocks \<Rightarrow>
           (let mergedBlocks = mergeBlocks [] (sort_key offset freeBlocks) in
            thenDo (writeFreeBlocks a 0 mergedBlocks) (\<lambda>_ a.
              viewSet a 4 (length mergedBlocks))))"

definition free :: "Allocator \<Rightarrow> MemoryBlockRef \<Rightarrow> unit result" where
  "free a blk =
     thenDo (viewGet a 4) (\<lambda>freeBlockCount a.
       if freeBlockCount \<ge> maxFreeBlocks a then (Inl FreeListFull, a)
       else
         thenDo (viewSet a (12 + freeBlockCount * 8) (offset blk)) (\<lambda>_ a.
         thenDo (viewSet a (12 + freeBlockCount * 8 + 4) (size' blk)) (\<lambda>_ a.
         thenDo (viewSet a 4 (freeBlockCount + 1)) (\<lambda>_ a.
           coalesceFreeBlocks a))))"

text \<open>
  \<^verbatim>\<open>registerStructure\<close>: the recorded offset is the bump offset read from the header
  at the time of the call.
\<close>

definition registerStructure :: "Allocator \<Rightarrow> ResizableArray \<Rightarrow> nat result" where
  "registerStructure a struct =
     (let sid = nextId a; a = a\<lparr>nextId := nextId a + 1\<rparr> in
      thenDo (viewGet a 0) (\<lambda>off a.
        let a = a\<lparr>structures := (structures a)(sid \<mapsto> (off, struct))\<rparr> in
        thenDo (viewGet a 8) (\<lambda>structuresCount a.
          let structOffset = 12 + maxFreeBlocks a * 8 + structuresCount * 8 in
          thenDo (viewSet a structOffset sid) (\<lambda>_ a.
          thenDo (viewSet a (structOffset + 4) off) (\<lambda>_ a.
          thenDo (viewSet a 8 (structuresCount + 1)) (\<lambda>_ a.
            (Inr sid, a)))))))"

definition getStructureOffset :: "Allocator \<Rightarrow> nat \<Rightarrow> error + nat" where
  "getStructureOffset a sid =
     (case structures a sid of
        None \<Rightarrow> Inl StructureNotFound
      | Some (off, struct) \<Rightarrow> Inr off)"

text \<open>
  \<^verbatim>\<open>fromBuffer\<close>: a new allocator with the default free-list capacity 100 and an empty
  structures map, whose buffer is then replaced by a copy of the given bytes. When the
  registry walk throws, no allocator is returned.
\<close>

definition fromBuffer :: "byte list \<Rightarrow> error + Allocator" where
  "fromBuffer buf =
     (case newAllocator (length buf) 100 of
        Inl e \<Rightarrow> Inl e
      | Inr allocator \<Rightarrow>
          (case restoreStructures (allocator\<lparr>buffer := buf\<rparr>) of
             (Inl e, _) \<Rightarrow> Inl e
           | (Inr _, allocator') \<Rightarrow> Inr allocator'))"

section \<open>ResizableArray\<close>

text \<open>
  The methods of the array take the allocator state, which holds the array's fields
  under \<open>this\<close>, its \<^verbatim>\<open>__ID\<close>. A method called on an object that does not exist is a
  property access on \<^verbatim>\<open>undefined\<close>.
\<close>

definition updateArray ::
  "Allocator \<Rightarrow> nat \<Rightarrow> (ResizableArray \<Rightarrow> ResizableArray) \<Rightarrow> Allocator" where
  "updateArray a this f =
     a\<lparr>structures :=
         (structures a)(this := map_option (\<lambda>(regOff, r). (regOff, f r)) (structures a this))\<rparr>"

definition saveMetadata :: "Allocator \<Rightarrow> nat \<Rightarrow> unit result" where
  "saveMetadata a this =
     (case structures a this of
        None \<Rightarrow> (Inl TypeError, a)
      | Some (regOff, r) \<Rightarrow>
          thenDo (viewSet a (offset (block r)) (length' r)) (\<lambda>_ a.
            viewSet a (offset (block r) + 4) (capacity r)))"

text \<open>
  The constructor: the block is allocated, the object registered, the metadata saved.
  It returns the id under which the object is registered.
\<close>

definition newResizableArray :: "Allocator \<Rightarrow> nat \<Rightarrow> nat result" where
  "newResizableArray a initialCapacity =
     thenDo (allocate a (8 + initialCapacity * 4)) (\<lambda>blk a.
     thenDo (registerStructure a
               \<lparr>length' = 0, capacity = initialCapacity, block = blk\<rparr>) (\<lambda>this a.
     thenDo (saveMetadata a this) (\<lambda>_ a. (Inr this, a))))"

text \<open>
  \<^verbatim>\<open>newView.set(oldView)\<close> on two \<^verbatim>\<open>Uint8Array\<close> views of the same buffer copies the
  source bytes as they were before the copy. Constructing a view of \<open>n\<close> bytes at
  \<open>off\<close> throws unless \<open>off + n\<close> is inside the buffer, and a source longer than
  the target throws.
\<close>

definition copyBytes :: "byte list \<Rightarrow> nat \<Rightarrow> nat \<Rightarrow> nat \<Rightarrow> byte list" where
  "copyBytes buf src dst n = take dst buf @ take n (drop src buf) @ drop (dst + n) buf"

definition resize :: "Allocator \<Rightarrow> nat \<Rightarrow> unit result" where
  "resize a this =
     (case structures a this of
        None \<Rightarrow> (Inl TypeError, a)
      | Some (_, r) \<Rightarrow>
          (let newCapacity = capacity r * 2 in
           thenDo (allocate a (8 + newCapacity * 4)) (\<lambda>newBlock a.
             case structures a this of
               None \<Rightarrow> (Inl TypeError, a)
             | Some (_, r) \<Rightarrow>
                 if offset (block r) + 8 + capacity r * 4 > length (buffer a)
                 then (Inl RangeError, a)
                 else if offset newBlock + 8 + newCapacity * 4 > length (buffer a)
                 then (Inl RangeError, a)
                 else if capacity r * 4 > newCapacity * 4
                 then (Inl RangeError, a)
                 else
                   thenDo (free (a\<lparr>buffer := copyBytes (buffer a) (offset (block r) + 8)
                                              (offset newBlock + 8) (capacity r * 4)\<rparr>)
                                (block r)) (\<lambda>_ a.
                     saveMetadata
                       (updateArray a this
                          (\<lambda>r. r\<lparr>capacity := newCapacity, block := newBlock\<rparr>))
                       this))))"

definition push :: "Allocator \<Rightarrow> nat \<Rightarrow> nat \<Rightarrow> unit result" where
  "push a this v =
     (case structures a this of
        None \<Rightarrow> (Inl TypeError, a)
      | Some (_, r) \<Rightarrow>
          thenDo (if length' r \<ge> capacity r then resize a this else (Inr (), a)) (\<lambda>_ a.
            case structures a this of
              None \<Rightarrow> (Inl TypeError, a)
            | Some (_, r) \<Rightarrow>
                thenDo (viewSet a (offset (block r) + 8 + length' r * 4) v) (\<lambda>_ a.
                  saveMetadata
                    (updateArray a this (\<lambda>r. r\<lparr>length' := length' r + 1\<rparr>)) this)))"

definition get :: "Allocator \<Rightarrow> nat \<Rightarrow> nat \<Rightarrow> error + nat" where
  "get a this index =
     (case structures a this of
        None \<Rightarrow> Inl TypeError
      | Some (_, r) \<Rightarrow>
          if index \<ge> length' r then Inl IndexOutOfBounds
          else getUint32 (buffer a) (offset (block r) + 8 + index * 4))"

text \<open>The call \<^verbatim>\<open>array.restore(offset)\<close> made by a user of the array.\<close>

definition callRestore :: "Allocator \<Rightarrow> nat \<Rightarrow> nat \<Rightarrow> unit result" where
  "callRestore a this off =
     (case structures a this of
        None \<Rightarrow> (Inl TypeError, a)
      | Some (regOff, r) \<Rightarrow>
          (case restore (buffer a) r off of
             (res, r') \<Rightarrow> (res, a\<lparr>structures := (structures a)(this \<mapsto> (regOff, r'))\<rparr>)))"

section \<open>Example states\<close>

text \<open>
  An arena of 32 bytes with a free table of capacity 1: the state after
  \<^verbatim>\<open>new Allocator(32, 1)\<close>, and the state after two allocations of 4 bytes of which
  the first has been freed, so that the free table is full.
\<close>

definition freshAllocator :: Allocator where
  "freshAllocator =
     \<lparr>buffer = [0,0,0,20, 0,0,0,0, 0,0,0,0, 0,0,0,0, 0,0,0,0,
                 0,0,0,0, 0,0,0,0, 0,0,0,0],
      maxFreeBlocks = 1, structures = Map.empty, nextId = 0\<rparr>"

definition fullAllocator :: Allocator where
  "fullAllocator =
     \<lparr>buffer = [0,0,0,28, 0,0,0,1, 0,0,0,0, 0,0,0,20, 0,0,0,4,
                 0,0,0,0, 0,0,0,0, 0,0,0,0],
      maxFreeBlocks = 1, structures = Map.empty, nextId = 0\<rparr>"

text \<open>
  The state after \<^verbatim>\<open>new Allocator(12, 536870912)\<close>, whose table would end at
  \<open>2^32 + 12\<close>; the state after \<^verbatim>\<open>new Allocator(24, 1)\<close>, whose arena ends inside
  the first registry entry; and an array object for the examples.
\<close>

definition wrappedAllocator :: Allocator where
  "wrappedAllocator =
     \<lparr>buffer = [0,0,0,12, 0,0,0,0, 0,0,0,0],
      maxFreeBlocks = 536870912, structures = Map.empty, nextId = 0\<rparr>"

definition smallAllocator :: Allocator where
  "smallAllocator =
     \<lparr>buffer = [0,0,0,20, 0,0,0,0, 0,0,0,0, 0,0,0,0, 0,0,0,0, 0,0,0,0],
      maxFreeBlocks = 1, structures = Map.empty, nextId = 0\<rparr>"

definition someArray :: ResizableArray where
  "someArray = \<lparr>length' = 0, capacity = 2, block = \<lparr>offset = 20, size' = 16\<rparr>\<rparr>"

definition tableEntry :: "byte list \<Rightarrow> nat \<Rightarrow> MemoryBlockRef" where
  "tableEntry buf i =
     \<lparr>offset = beUint32 buf (12 + i * 8), size' = beUint32 buf (12 + i * 8 + 4)\<rparr>"

definition freeList :: "byte list \<Rightarrow> MemoryBlockRef list" where
  "freeList buf = map (tableEntry buf) [0..<beUint32 buf 4]"

definition uint32Block :: "MemoryBlockRef \<Rightarrow> MemoryBlockRef" where
  "uint32Block b = \<lparr>offset = offset b mod 4294967296, size' = size' b mod 4294967296\<rparr>"

fun putBlocks :: "byte list \<Rightarrow> nat \<Rightarrow> MemoryBlockRef list \<Rightarrow> byte list" where
  "putBlocks buf i [] = buf"
| "putBlocks buf i (b # bs) =
     putBlocks (putUint32 (putUint32 buf (12 + i * 8) (offset b)) (12 + i * 8 + 4) (size' b))
       (i + 1) bs"

definition separated :: "MemoryBlockRef list \<Rightarrow> bool" where
  "separated bs = sorted_wrt (\<lambda>b c. offset b + size' b < offset c) bs"

definition coalesced :: "byte list \<Rightarrow> MemoryBlockRef list" where
  "coalesced buf = mergeBlocks [] (sort_key offset (freeList buf))"

definition appendFree :: "byte list \<Rightarrow> MemoryBlockRef \<Rightarrow> byte list" where
  "appendFree buf blk =
     (let c = beUint32 buf 4 in
      putUint32 (putUint32 (putUint32 buf (12 + c * 8) (offset blk))
                   (12 + c * 8 + 4) (size' blk)) 4 (c + 1))"

definition covers :: "MemoryBlockRef \<Rightarrow> MemoryBlockRef \<Rightarrow> bool" where
  "covers e b \<longleftrightarrow> offset e \<le> offset b \<and> offset b + size' b \<le> offset e + size' e"

definition oneFree :: Allocator where
  "oneFree =
     \<lparr>buffer = [0,0,0,48, 0,0,0,1, 0,0,0,0, 0,0,0,36, 0,0,0,4, 0,0,0,0, 0,0,0,0,
                 0,0,0,0, 0,0,0,0, 0,0,0,0, 0,0,0,0, 0,0,0,0, 0,0,0,0,
                 0,0,0,0, 0,0,0,0, 0,0,0,0],
      maxFreeBlocks = 3, structures = Map.empty, nextId = 0\<rparr>"

definition tinyAllocator :: Allocator where
  "tinyAllocator =
     \<lparr>buffer = [0,0,3,44, 0,0,0,0, 0,0,0,0],
      maxFreeBlocks = 100, structures = Map.empty, nextId = 0\<rparr>"

definition noneFree :: Allocator where
  "noneFree =
     \<lparr>buffer = [0,0,0,48, 0,0,0,0, 0,0,0,0, 0,0,0,0, 0,0,0,0, 0,0,0,0, 0,0,0,0,
                 0,0,0,0, 0,0,0,0, 0,0,0,0, 0,0,0,0, 0,0,0,0, 0,0,0,0,
                 0,0,0,0, 0,0,0,0, 0,0,0,0],
      maxFreeBlocks = 3, structures = Map.empty, nextId = 0\<rparr>"

definition wrap0 :: Allocator where
  "wrap0 = \<lparr>buffer = putUint32 (replicate 32 0) 0 28,
            maxFreeBlocks = 2, structures = Map.empty, nextId = 0\<rparr>"

definition wrap1 :: Allocator where
  "wrap1 = snd (allocate wrap0 4)"

definition wrap2 :: Allocator where
  "wrap2 = snd (allocate wrap1 4294967300)"

definition wrap3 :: Allocator where
  "wrap3 = snd (free wrap2 \<lparr>offset = 28, size' = 4\<rparr>)"

definition wrap4 :: Allocator where
  "wrap4 = snd (free wrap3 \<lparr>offset = 32, size' = 4294967300\<rparr>)"

definition blockRange :: "MemoryBlockRef \<Rightarrow> nat set" where
  "blockRange b = {offset b ..< offset b + size' b}"

definition disjointBlocks :: "MemoryBlockRef list \<Rightarrow> bool" where
  "disjointBlocks bs \<longleftrightarrow>
     distinct bs \<and> (\<forall>b\<in>set bs. 0 < size' b)
     \<and> (\<forall>b\<in>set bs. \<forall>c\<in>set bs. b \<noteq> c \<longrightarrow> blockRange b \<inter> blockRange c = {})"

definition removeEntry :: "byte list \<Rightarrow> nat \<Rightarrow> byte list" where
  "removeEntry buf j =
     (let c = beUint32 buf 4; buf1 = putUint32 buf 4 (c - 1) in
      if j < c - 1 then putBlocks buf1 j [tableEntry buf (c - 1)] else buf1)"

definition arenaInv :: "byte list \<Rightarrow> MemoryBlockRef list \<Rightarrow> bool" where
  "arenaInv buf live \<longleftrightarrow>
     12 + beUint32 buf 4 * 8 \<le> length buf
     \<and> disjointBlocks (freeList buf @ live)
     \<and> (\<forall>b\<in>set (freeList buf @ live). offset b + size' b \<le> beUint32 buf 0)"

datatype call = Allocate nat | Free MemoryBlockRef

fun step :: "Allocator \<times> MemoryBlockRef list \<Rightarrow> call \<Rightarrow> Allocator \<times> MemoryBlockRef list" where
  "step (a, live) (Allocate sz) =
     (case allocate a sz of
        (Inr b, a') \<Rightarrow> (a', b # live)
      | (Inl e, a') \<Rightarrow> (a', live))"
| "step (a, live) (Free b) =
     (case free a b of
        (Inr u, a') \<Rightarrow> (a', remove1 b live)
      | (Inl e, a') \<Rightarrow> (a', live))"

fun run :: "Allocator \<times> MemoryBlockRef list \<Rightarrow> call list \<Rightarrow> Allocator \<times> MemoryBlockRef list" where
  "run s [] = s"
| "run s (c # cs) = run (step s c) cs"

fun respectsAPI :: "Allocator \<times> MemoryBlockRef list \<Rightarrow> call list \<Rightarrow> bool" where
  "respectsAPI s [] = True"
| "respectsAPI (a, live) (Allocate sz # cs) =
     (0 < sz \<and> respectsAPI (step (a, live) (Allocate sz)) cs)"
| "respectsAPI (a, live) (Free b # cs) =
     (b \<in> set live \<and> respectsAPI (step (a, live) (Free b)) cs)"

fun fits32 :: "Allocator \<times> MemoryBlockRef list \<Rightarrow> call list \<Rightarrow> bool" where
  "fits32 s [] = True"
| "fits32 (a, live) (Allocate sz # cs) =
     ((case fst (allocate a sz) of
         Inr b \<Rightarrow> offset b + size' b < 4294967296
       | Inl e \<Rightarrow> True)
      \<and> fits32 (step (a, live) (Allocate sz)) cs)"
| "fits32 (a, live) (Free b # cs) = fits32 (step (a, live) (Free b)) cs"

definition reuseCalls :: "call list" where
  "reuseCalls = [Allocate 4, Allocate 4, Free \<lparr>offset = 28, size' = 4\<rparr>, Allocate 2]"

definition wrapCalls :: "call list" where
  "wrapCalls = [Allocate 4294967296, Allocate 4]"

text \<open>
  The scenario of the repository's array test: the state after
  \<^verbatim>\<open>new Allocator(1024)\<close>, with the default capacity 100; the construction on it of an
  array of capacity 2 followed by the pushes of 42 and 84; and the fields of an array
  as its user reads them.
\<close>

definition testAllocator :: Allocator where
  "testAllocator =
     \<lparr>buffer = putUint32 (putUint32 (putUint32 (replicate 1024 0) 0 812) 4 0) 8 0,
      maxFreeBlocks = 100, structures = Map.empty, nextId = 0\<rparr>"

definition pushedArray :: "nat result" where
  "pushedArray =
     thenDo (newResizableArray testAllocator 2) (\<lambda>this a.
     thenDo (push a this 42) (\<lambda>_ a.
     thenDo (push a this 84) (\<lambda>_ a. (Inr this, a))))"

definition fields :: "Allocator \<Rightarrow> nat \<Rightarrow> (nat \<times> nat \<times> MemoryBlockRef) option" where
  "fields a this =
     map_option (\<lambda>(regOff, r). (length' r, capacity r, block r)) (structures a this)"

section \<open>Basic facts\<close>

lemma thenDo_Inl [simp]: "thenDo (Inl e, a) f = (Inl e, a)"
  by (simp add: thenDo_def)

lemma thenDo_Inr [simp]: "thenDo (Inr x, a) f = f x a"
  by (simp add: thenDo_def)

lemma be_roundtrip:
  "(v div 16777216 mod 256) * 16777216 + (v div 65536 mod 256) * 65536
     + (v div 256 mod 256) * 256 + v mod 256 = v mod 4294967296" for v :: nat
proof -
  have a: "v mod (256 * 16777216) = 256 * (v div 256 mod 16777216) + v mod 256"
    by (rule mod_mult2_eq)
  have b: "(v div 256) mod (256 * 65536)
             = 256 * (v div 256 div 256 mod 65536) + v div 256 mod 256"
    by (rule mod_mult2_eq)
  have c: "(v div 256 div 256) mod (256 * 256)
             = 256 * (v div 256 div 256 div 256 mod 256) + v div 256 div 256 mod 256"
    by (rule mod_mult2_eq)
  have d: "v div 65536 = v div 256 div 256" "v div 16777216 = v div 256 div 256 div 256"
    by (simp_all add: div_mult2_eq[symmetric])
  show ?thesis using a b c unfolding d by simp
qed

lemma byte_lt: "unat (b :: byte) < 256"
  using unsigned_less[of b, where ?'a=nat] by simp

lemma length_putUint32 [simp]: "length (putUint32 buf off v) = length buf"
  by (simp add: putUint32_def)

lemma beUint32_putUint32_same:
  "off + 4 \<le> length buf \<Longrightarrow> beUint32 (putUint32 buf off v) off = v mod 4294967296"
  using be_roundtrip[of v]
  by (simp add: beUint32_def putUint32_def unat_of_nat)

lemma beUint32_putUint32_other:
  "off' + 4 \<le> off \<or> off + 4 \<le> off' \<Longrightarrow>
   beUint32 (putUint32 buf off v) off' = beUint32 buf off'"
  by (auto simp: beUint32_def putUint32_def)

lemma beUint32_bound: "beUint32 buf off < 4294967296"
  using byte_lt[of "buf ! off"] byte_lt[of "buf ! (off + 1)"]
        byte_lt[of "buf ! (off + 2)"] byte_lt[of "buf ! (off + 3)"]
  by (simp add: beUint32_def)

lemma putUint32_nth_other:
  "i < off \<or> off + 4 \<le> i \<Longrightarrow> putUint32 buf off v ! i = buf ! i"
  by (auto simp: putUint32_def)

lemma beUint32_append:
  "off + 4 \<le> length buf \<Longrightarrow> beUint32 (buf @ ys) off = beUint32 buf off"
  by (simp add: beUint32_def nth_append)

lemma getUint32_bound: "getUint32 buf off = Inr v \<Longrightarrow> v < 4294967296"
  using beUint32_bound[of buf off] by (auto simp: getUint32_def split: if_splits)

lemma viewGet_simp [simp]: "viewGet a off = (getUint32 (buffer a) off, a)"
  by (simp add: viewGet_def)

lemma viewSet_simp:
  "viewSet a off v =
     (if off + 4 \<le> length (buffer a)
      then (Inr (), a\<lparr>buffer := putUint32 (buffer a) off v\<rparr>)
      else (Inl RangeError, a))"
  by (simp add: viewSet_def setUint32_def)

section \<open>A full free list rejects the block and changes nothing\<close>

text \<open>
  C5. When the free-block count read from the header has reached the configured
  maximum, \<^verbatim>\<open>free\<close> throws the capacity error and the allocator, that is the header
  counters, the free table and every other byte of the arena, is exactly as before;
  in particular the block is not recorded.
\<close>

theorem free_full_no_mutation:
  "getUint32 (buffer a) 4 = Inr c \<Longrightarrow> maxFreeBlocks a \<le> c \<Longrightarrow>
   free a blk = (Inl FreeListFull, a)"
  by (simp add: free_def)

theorem free_full_no_mutation_witness:
  "getUint32 (buffer fullAllocator) 4 = Inr 1 \<and> maxFreeBlocks fullAllocator \<le> 1
   \<and> free fullAllocator \<lparr>offset = 24, size' = 4\<rparr> = (Inl FreeListFull, fullAllocator)"
proof -
  have h1: "getUint32 (buffer fullAllocator) 4 = Inr 1"
    by (simp add: fullAllocator_def getUint32_def beUint32_def)
  have h2: "maxFreeBlocks fullAllocator \<le> 1"
    by (simp add: fullAllocator_def)
  show ?thesis
    using h1 h2 free_full_no_mutation [OF h1 h2, of "\<lparr>offset = 24, size' = 4\<rparr>"] by simp
qed

section \<open>Growth doubles the arena and keeps its bytes\<close>

lemma restoreStructures_loop_buffer:
  "buffer (snd (restoreStructures_loop a i n)) = buffer a"
  by (induction a i n rule: restoreStructures_loop.induct)
     (auto simp: Let_def split: sum.splits option.splits prod.splits)

lemma restoreStructures_buffer: "buffer (snd (restoreStructures a)) = buffer a"
  by (cases "getUint32 (buffer a) 8")
     (simp_all add: restoreStructures_def restoreStructures_loop_buffer)

text \<open>
  C9. Whether the registry walk at its end returns or throws, \<^verbatim>\<open>expandBuffer\<close> leaves
  the allocator with the old bytes followed by as many zero bytes: the length is
  exactly doubled, so the arena does not shrink, and the byte at every offset below
  the old length is the byte that was there.
\<close>

theorem expandBuffer_doubles:
  "buffer (snd (expandBuffer a)) = buffer a @ replicate (length (buffer a)) 0
   \<and> length (buffer (snd (expandBuffer a))) = 2 * length (buffer a)
   \<and> (\<forall>i < length (buffer a). buffer (snd (expandBuffer a)) ! i = buffer a ! i)"
  by (simp add: expandBuffer_def restoreStructures_buffer nth_append)

theorem expandBuffer_doubles_witness:
  "length (buffer (snd (expandBuffer fullAllocator))) = 64
   \<and> (3 < length (buffer fullAllocator)
        \<and> buffer (snd (expandBuffer fullAllocator)) ! 3 = 28)"
  using expandBuffer_doubles [of fullAllocator]
  by (simp add: fullAllocator_def)

section \<open>Construction and the header\<close>

lemma newAllocator_eq:
  "newAllocator n M =
     (if 12 \<le> n
      then Inr \<lparr>buffer = putUint32 (putUint32 (putUint32 (replicate n 0) 0 (12 + M * 8)) 4 0) 8 0,
                maxFreeBlocks = M, structures = Map.empty, nextId = 0\<rparr>
      else Inl RangeError)"
  by (simp add: newAllocator_def setUint32_def)

lemma newAllocator_header:
  assumes "newAllocator n M = Inr a"
  shows "12 \<le> length (buffer a)" "length (buffer a) = n" "maxFreeBlocks a = M"
    "getUint32 (buffer a) 0 = Inr ((12 + M * 8) mod 4294967296)"
    "getUint32 (buffer a) 4 = Inr 0" "getUint32 (buffer a) 8 = Inr 0"
    "structures a = Map.empty" "nextId a = 0"
  using assms
  by (auto simp: newAllocator_eq getUint32_def beUint32_putUint32_same beUint32_putUint32_other
      split: if_splits)

lemma newAllocator_fresh: "newAllocator 32 1 = Inr freshAllocator"
proof -
  have "putUint32 (putUint32 (putUint32 (replicate 32 0) 0 (12 + 1 * 8)) 4 0) 8 0
          = buffer freshAllocator"
    unfolding freshAllocator_def by code_simp
  then show ?thesis
    by (simp add: newAllocator_eq freshAllocator_def)
qed

lemma registerStructure_eq:
  assumes "getUint32 (buffer b) 8 = Inr c" "getUint32 (buffer b) 0 = Inr off"
  shows "registerStructure b s =
     (if 12 + maxFreeBlocks b * 8 + c * 8 + 8 \<le> length (buffer b)
      then (Inr (nextId b),
            b\<lparr>nextId := nextId b + 1,
              structures := (structures b)(nextId b \<mapsto> (off, s)),
              buffer := putUint32 (putUint32 (putUint32 (buffer b)
                           (12 + maxFreeBlocks b * 8 + c * 8) (nextId b))
                           (12 + maxFreeBlocks b * 8 + c * 8 + 4) off) 8 (c + 1)\<rparr>)
      else if 12 + maxFreeBlocks b * 8 + c * 8 + 4 \<le> length (buffer b)
      then (Inl RangeError,
            b\<lparr>nextId := nextId b + 1,
              structures := (structures b)(nextId b \<mapsto> (off, s)),
              buffer := putUint32 (buffer b) (12 + maxFreeBlocks b * 8 + c * 8) (nextId b)\<rparr>)
      else (Inl RangeError,
            b\<lparr>nextId := nextId b + 1,
              structures := (structures b)(nextId b \<mapsto> (off, s))\<rparr>))"
  using assms
  by (auto simp: registerStructure_def Let_def viewSet_simp getUint32_def split: if_splits)

theorem registry_in_data_region_counterexample:
  "newAllocator 12 536870912 = Inr wrappedAllocator
   \<and> getUint32 (buffer wrappedAllocator) 0 = Inr 12
   \<and> 12 + maxFreeBlocks wrappedAllocator * 8 = 4294967308"
proof -
  have "putUint32 (putUint32 (putUint32 (replicate 12 0) 0 (12 + 536870912 * 8)) 4 0) 8 0
          = [0,0,0,12, 0,0,0,0, 0,0,0,0]"
    by code_simp
  then show ?thesis
    by (simp add: newAllocator_eq wrappedAllocator_def getUint32_def beUint32_def)
qed

section \<open>Loading from raw bytes\<close>

lemma fromBuffer_eq:
  assumes "getUint32 buf 8 = Inr c"
  shows "(c = 0 \<longrightarrow> fromBuffer buf
            = Inr \<lparr>buffer = buf, maxFreeBlocks = 100, structures = Map.empty, nextId = 0\<rparr>)
       \<and> (0 < c \<longrightarrow> fromBuffer buf
            = Inl (if 820 \<le> length buf then TypeError else RangeError))"
proof -
  have len: "12 \<le> length buf" using assms by (auto simp: getUint32_def split: if_splits)
  show ?thesis
  proof (cases c)
    case 0
    then show ?thesis using assms len
      by (simp add: fromBuffer_def newAllocator_eq restoreStructures_def)
  next
    case (Suc n)
    then show ?thesis using assms len
      by (simp add: fromBuffer_def newAllocator_eq restoreStructures_def getUint32_def Let_def)
  qed
qed

section \<open>Bump allocation with growth\<close>

lemma thenDo_Some_neq_None:
  "fst (thenDo r (\<lambda>_ a. (Inr (Some x), a))) \<noteq> Inr None"
  by (auto simp: thenDo_def split: prod.splits sum.splits)

lemma thenDo2_Some_neq_None:
  "fst (thenDo r (\<lambda>_ a. thenDo (g a) (\<lambda>_ a. (Inr (Some x), a)))) \<noteq> Inr None"
  by (auto simp: thenDo_def split: prod.splits sum.splits)

lemma allocate_loop_None_state:
  "fst (allocate_loop a sz i n) = Inr None \<Longrightarrow> snd (allocate_loop a sz i n) = a"
  by (induction a sz i n rule: allocate_loop.induct)
     (auto simp: thenDo_Some_neq_None thenDo2_Some_neq_None split: sum.splits if_splits)

lemma expandBuffer_buffer:
  "buffer (snd (expandBuffer a)) = buffer a @ replicate (length (buffer a)) 0"
  by (simp add: expandBuffer_def restoreStructures_buffer)

lemma expandBuffer_no_structures:
  "getUint32 (buffer a) 8 = Inr 0 \<Longrightarrow> fst (expandBuffer a) = Inr ()"
  by (auto simp: expandBuffer_def restoreStructures_def getUint32_def beUint32_append
      split: if_splits)

text \<open>
  C6. When the first-fit loop over the \<open>c\<close> free entries ends without a hit and the
  bump offset \<open>off\<close> plus the size exceeds the arena length, the arena is after the
  call exactly twice as long, however large the size is and whether the call returns
  or throws in the registry walk of the growth; a block that is returned is
  \<open>{off, size}\<close>, at the bump offset from before the growth; and the call does return
  this block when the registry walk succeeds, as it does when no structure is
  registered.
\<close>

theorem allocate_growth:
  assumes cnt: "getUint32 (buffer a) 4 = Inr c"
    and nofit: "fst (allocate_loop a sz 0 c) = Inr None"
    and bump: "getUint32 (buffer a) 0 = Inr off"
    and over: "length (buffer a) < off + sz"
  shows "length (buffer (snd (allocate a sz))) = 2 * length (buffer a)
     \<and> (\<forall>b. fst (allocate a sz) = Inr b \<longrightarrow> b = \<lparr>offset = off, size' = sz\<rparr>)
     \<and> (fst (expandBuffer a) = Inr () \<longrightarrow>
          fst (allocate a sz) = Inr \<lparr>offset = off, size' = sz\<rparr>)
     \<and> (getUint32 (buffer a) 8 = Inr 0 \<longrightarrow>
          fst (allocate a sz) = Inr \<lparr>offset = off, size' = sz\<rparr>)"
proof -
  have loop: "allocate_loop a sz 0 c = (Inr None, a)"
    using nofit allocate_loop_None_state[OF nofit] by (simp add: prod_eq_iff)
  have len4: "4 \<le> length (buffer a)"
    using bump by (auto simp: getUint32_def split: if_splits)
  have off: "beUint32 (buffer a) 0 = off"
    using bump by (auto simp: getUint32_def split: if_splits)
  obtain r a' where e: "expandBuffer a = (r, a')" by (cases "expandBuffer a")
  have buf': "buffer a' = buffer a @ replicate (length (buffer a)) 0"
    using expandBuffer_buffer[of a] e by simp
  have get': "getUint32 (buffer a') 0 = Inr off"
    using len4 off by (simp add: buf' getUint32_def beUint32_append)
  have al: "allocate a sz = thenDo (thenDo (r, a') (\<lambda>_ a. viewGet a 0)) (\<lambda>off a.
           thenDo (viewSet a 0 (off + sz)) (\<lambda>_ a. (Inr \<lparr>offset = off, size' = sz\<rparr>, a)))"
    using cnt loop bump over e by (simp add: allocate_def)
  have main: "length (buffer (snd (allocate a sz))) = 2 * length (buffer a)
     \<and> (\<forall>b. fst (allocate a sz) = Inr b \<longrightarrow> b = \<lparr>offset = off, size' = sz\<rparr>)
     \<and> (r = Inr () \<longrightarrow> fst (allocate a sz) = Inr \<lparr>offset = off, size' = sz\<rparr>)"
  proof (cases r)
    case (Inl err)
    then show ?thesis using al buf' by simp
  next
    case (Inr u)
    then show ?thesis using al get' len4 buf' by (simp add: viewSet_simp)
  qed
  have r: "fst (expandBuffer a) = r" using e by simp
  show ?thesis using main expandBuffer_no_structures[of a] unfolding r by blast
qed

theorem allocate_growth_witness:
  "getUint32 (buffer freshAllocator) 4 = Inr 0
   \<and> fst (allocate_loop freshAllocator 1000 0 0) = Inr None
   \<and> getUint32 (buffer freshAllocator) 0 = Inr 20
   \<and> length (buffer freshAllocator) < 20 + 1000
   \<and> getUint32 (buffer freshAllocator) 8 = Inr 0
   \<and> length (buffer (snd (allocate freshAllocator 1000))) = 64
   \<and> fst (allocate freshAllocator 1000) = Inr \<lparr>offset = 20, size' = 1000\<rparr>"
proof -
  have h1: "getUint32 (buffer freshAllocator) 4 = Inr 0"
    and h3: "getUint32 (buffer freshAllocator) 0 = Inr 20"
    and h5: "getUint32 (buffer freshAllocator) 8 = Inr 0"
    by (simp_all add: freshAllocator_def getUint32_def beUint32_def)
  have h2: "fst (allocate_loop freshAllocator 1000 0 0) = Inr None" by simp
  have len: "length (buffer freshAllocator) = 32" by (simp add: freshAllocator_def)
  have h4: "length (buffer freshAllocator) < 20 + 1000" by (simp add: len)
  note t = allocate_growth [OF h1 h2 h3 h4]
  have r1: "length (buffer (snd (allocate freshAllocator 1000))) = 64"
    using t len by simp
  have r2: "fst (allocate freshAllocator 1000) = Inr \<lparr>offset = 20, size' = 1000\<rparr>"
    using t h5 by blast
  show ?thesis
    by (intro conjI h1 h2 h3 h4 h5 r1 r2)
qed

lemma readFreeBlocks_eq:
  "readFreeBlocks buf i n =
     (if n = 0 \<or> 12 + (i + n) * 8 \<le> length buf
      then Inr (map (tableEntry buf) [i..<i + n]) else Inl RangeError)"
proof (induction n arbitrary: i)
  case 0
  then show ?case by simp
next
  case (Suc n)
  have upt: "[i..<i + Suc n] = i # [i + 1..<i + 1 + n]" by (simp add: upt_conv_Cons)
  show ?case
    unfolding readFreeBlocks.simps Suc.IH upt
    by (auto simp: getUint32_def tableEntry_def)
qed

lemma length_putBlocks [simp]: "length (putBlocks buf i bs) = length buf"
  by (induction bs arbitrary: buf i) simp_all

lemma writeFreeBlocks_eq:
  "bs = [] \<or> 12 + (i + length bs) * 8 \<le> length (buffer a) \<Longrightarrow>
   writeFreeBlocks a i bs = (Inr (), a\<lparr>buffer := putBlocks (buffer a) i bs\<rparr>)"
proof (induction bs arbitrary: a i)
  case Nil
  then show ?case by simp
next
  case (Cons b bs)
  then show ?case by (simp add: setUint32_def)
qed

lemma beUint32_putBlocks_other:
  "off + 4 \<le> 12 + i * 8 \<or> 12 + (i + length bs) * 8 \<le> off \<Longrightarrow>
   beUint32 (putBlocks buf i bs) off = beUint32 buf off"
proof (induction bs arbitrary: buf i)
  case Nil
  then show ?case by simp
next
  case (Cons b bs)
  have "beUint32 (putBlocks (putUint32 (putUint32 buf (12 + i * 8) (offset b))
            (12 + i * 8 + 4) (size' b)) (i + 1) bs) off
        = beUint32 (putUint32 (putUint32 buf (12 + i * 8) (offset b))
            (12 + i * 8 + 4) (size' b)) off"
    using Cons.prems by (intro Cons.IH) auto
  also have "\<dots> = beUint32 buf off"
    using Cons.prems by (auto simp: beUint32_putUint32_other)
  finally show ?case by simp
qed

lemma tableEntry_putBlocks:
  "12 + (i + length bs) * 8 \<le> length buf \<Longrightarrow> j < length bs \<Longrightarrow>
   tableEntry (putBlocks buf i bs) (i + j) = uint32Block (bs ! j)"
proof (induction bs arbitrary: buf i j)
  case Nil
  then show ?case by simp
next
  case (Cons b bs)
  let ?buf1 = "putUint32 (putUint32 buf (12 + i * 8) (offset b)) (12 + i * 8 + 4) (size' b)"
  show ?case
  proof (cases j)
    case 0
    have "tableEntry (putBlocks ?buf1 (i + 1) bs) i = tableEntry ?buf1 i"
      by (simp add: tableEntry_def beUint32_putBlocks_other)
    also have "\<dots> = uint32Block b"
      using Cons.prems
      by (simp add: tableEntry_def uint32Block_def beUint32_putUint32_same beUint32_putUint32_other)
    finally show ?thesis using 0 by simp
  next
    case (Suc k)
    have "tableEntry (putBlocks ?buf1 (i + 1) bs) (i + 1 + k) = uint32Block (bs ! k)"
      using Cons.prems Suc by (intro Cons.IH) auto
    then show ?thesis using Suc by simp
  qed
qed

lemma map_tableEntry_putBlocks:
  assumes "12 + length bs * 8 \<le> length buf"
  shows "map (tableEntry (putBlocks buf 0 bs)) [0..<length bs] = map uint32Block bs"
proof (rule nth_equalityI)
  show "length (map (tableEntry (putBlocks buf 0 bs)) [0..<length bs]) = length (map uint32Block bs)"
    by simp
next
  fix j assume "j < length (map (tableEntry (putBlocks buf 0 bs)) [0..<length bs])"
  then have j: "j < length bs" by simp
  then show "map (tableEntry (putBlocks buf 0 bs)) [0..<length bs] ! j = map uint32Block bs ! j"
    using tableEntry_putBlocks[of 0 bs buf j] assms by simp
qed

lemma length_mergeBlocks: "length (mergeBlocks acc bs) \<le> length acc + length bs"
proof (induction bs arbitrary: acc)
  case Nil
  then show ?case by simp
next
  case (Cons b bs)
  have "length (mergeBlocks (acc @ [b]) bs) \<le> length (acc @ [b]) + length bs"
    by (rule Cons.IH)
  moreover have "acc \<noteq> [] \<Longrightarrow> length (mergeBlocks (butlast acc
           @ [(last acc)\<lparr>size' := size' (last acc) + size' b\<rparr>]) bs)
        \<le> length (butlast acc @ [(last acc)\<lparr>size' := size' (last acc) + size' b\<rparr>]) + length bs"
    by (rule Cons.IH)
  ultimately show ?case by auto
qed

lemma mergeBlocks_offsets:
  "offset ` set (mergeBlocks acc bs) \<subseteq> offset ` set acc \<union> offset ` set bs"
proof (induction bs arbitrary: acc)
  case Nil
  then show ?case by simp
next
  case (Cons b bs)
  show ?case
  proof (cases "acc = [] \<or> offset (last acc) + size' (last acc) < offset b")
    case True
    then show ?thesis using Cons.IH[of "acc @ [b]"] by auto
  next
    case False
    then obtain ys l where acc: "acc = ys @ [l]" by (cases acc rule: rev_cases) auto
    show ?thesis using False Cons.IH[of "ys @ [l\<lparr>size' := size' l + size' b\<rparr>]"]
      by (auto simp: acc)
  qed
qed

lemma mergeBlocks_separated:
  assumes "separated acc" "sorted (map offset bs)"
    "acc \<noteq> [] \<longrightarrow> (\<forall>c\<in>set bs. offset (last acc) \<le> offset c)"
  shows "separated (mergeBlocks acc bs)"
  using assms
proof (induction bs arbitrary: acc)
  case Nil
  then show ?case by simp
next
  case (Cons b bs)
  show ?case
  proof (cases "acc = []")
    case True
    have "separated (mergeBlocks [b] bs)"
      using Cons.prems by (intro Cons.IH) (auto simp: separated_def)
    then show ?thesis using True by simp
  next
    case False
    then obtain ys l where acc: "acc = ys @ [l]" by (cases acc rule: rev_cases) auto
    have ys: "separated ys" "\<forall>x\<in>set ys. offset x + size' x < offset l"
      using Cons.prems(1) by (auto simp: acc separated_def sorted_wrt_append)
    have lb: "offset l \<le> offset b" "\<forall>c\<in>set bs. offset b \<le> offset c"
      using Cons.prems(2,3) by (auto simp: acc)
    show ?thesis
    proof (cases "offset l + size' l < offset b")
      case True
      have "separated (mergeBlocks (acc @ [b]) bs)"
      proof (rule Cons.IH)
        show "separated (acc @ [b])"
          using ys lb True Cons.prems(1)
          by (fastforce simp: acc separated_def sorted_wrt_append)
        show "sorted (map offset bs)" using Cons.prems(2) by simp
        show "acc @ [b] \<noteq> [] \<longrightarrow> (\<forall>c\<in>set bs. offset (last (acc @ [b])) \<le> offset c)"
          using lb by simp
      qed
      then show ?thesis using True by (simp add: acc)
    next
      case nlt: False
      let ?l' = "l\<lparr>size' := size' l + size' b\<rparr>"
      have "separated (mergeBlocks (ys @ [?l']) bs)"
      proof (rule Cons.IH)
        show "separated (ys @ [?l'])"
          using ys by (auto simp: separated_def sorted_wrt_append)
        show "sorted (map offset bs)" using Cons.prems(2) by simp
        show "ys @ [?l'] \<noteq> [] \<longrightarrow> (\<forall>c\<in>set bs. offset (last (ys @ [?l'])) \<le> offset c)"
          using lb by auto
      qed
      then show ?thesis using nlt by (simp add: acc)
    qed
  qed
qed

lemma separated_uint32Block:
  assumes "separated bs" "\<forall>b\<in>set bs. offset b < 4294967296"
  shows "separated (map uint32Block bs)"
proof -
  have "sorted_wrt (\<lambda>x y. offset (uint32Block x) + size' (uint32Block x) < offset (uint32Block y)) bs"
  proof (rule sorted_wrt_mono_rel[OF _ assms(1)[unfolded separated_def]])
    fix x y assume "x \<in> set bs" "y \<in> set bs" "offset x + size' x < offset y"
    moreover have "size' x mod 4294967296 \<le> size' x" by simp
    ultimately show "offset (uint32Block x) + size' (uint32Block x) < offset (uint32Block y)"
      using assms(2) by (simp add: uint32Block_def)
  qed
  then show ?thesis by (simp add: separated_def sorted_wrt_map)
qed

lemma tableEntry_offset_bound: "offset (tableEntry buf i) < 4294967296"
  by (simp add: tableEntry_def beUint32_bound)

lemma tableEntry_size_bound: "size' (tableEntry buf i) < 4294967296"
  by (simp add: tableEntry_def beUint32_bound)

lemma freeList_bounds:
  "b \<in> set (freeList buf) \<Longrightarrow> offset b < 4294967296 \<and> size' b < 4294967296"
  by (auto simp: freeList_def tableEntry_offset_bound tableEntry_size_bound)

lemma length_coalesced: "length (coalesced buf) \<le> beUint32 buf 4"
  using length_mergeBlocks[of "[]" "sort_key offset (freeList buf)"]
  by (simp add: coalesced_def freeList_def)

lemma coalesceFreeBlocks_eq:
  assumes c: "getUint32 (buffer a) 4 = Inr c" and inr: "c = 0 \<or> 12 + c * 8 \<le> length (buffer a)"
  shows "coalesceFreeBlocks a =
     (Inr (), a\<lparr>buffer := putUint32 (putBlocks (buffer a) 0 (coalesced (buffer a))) 4
                             (length (coalesced (buffer a)))\<rparr>)"
proof -
  have c': "beUint32 (buffer a) 4 = c" and len8: "8 \<le> length (buffer a)"
    using c by (auto simp: getUint32_def split: if_splits)
  have rd: "readFreeBlocks (buffer a) 0 c = Inr (freeList (buffer a))"
    using inr by (auto simp: readFreeBlocks_eq freeList_def c')
  have ml: "length (coalesced (buffer a)) \<le> c"
    using length_coalesced[of "buffer a"] c' by simp
  have wr: "writeFreeBlocks a 0 (coalesced (buffer a))
      = (Inr (), a\<lparr>buffer := putBlocks (buffer a) 0 (coalesced (buffer a))\<rparr>)"
  proof (rule writeFreeBlocks_eq)
    show "coalesced (buffer a) = [] \<or> 12 + (0 + length (coalesced (buffer a))) * 8 \<le> length (buffer a)"
      using ml inr by (cases "c = 0") auto
  qed
  show ?thesis
    using c rd wr len8
    by (simp add: coalesceFreeBlocks_def coalesced_def[symmetric] Let_def viewSet_simp)
qed

lemma freeList_after_coalesce:
  assumes inr: "beUint32 buf 4 = 0 \<or> 12 + beUint32 buf 4 * 8 \<le> length buf" and len8: "8 \<le> length buf"
  shows "freeList (putUint32 (putBlocks buf 0 (coalesced buf)) 4 (length (coalesced buf)))
         = map uint32Block (coalesced buf)"
proof -
  let ?m = "coalesced buf"
  let ?buf' = "putUint32 (putBlocks buf 0 ?m) 4 (length ?m)"
  have ml: "length ?m \<le> beUint32 buf 4" by (rule length_coalesced)
  have lt: "length ?m < 4294967296" using ml beUint32_bound[of buf 4] by simp
  have cnt: "beUint32 ?buf' 4 = length ?m"
    using len8 lt by (simp add: beUint32_putUint32_same)
  have ent: "tableEntry ?buf' = tableEntry (putBlocks buf 0 ?m)"
    by (rule ext) (simp add: tableEntry_def beUint32_putUint32_other)
  have rng: "12 + length ?m * 8 \<le> length buf \<or> ?m = []"
    using ml inr by (cases "beUint32 buf 4 = 0") auto
  show ?thesis
  proof (cases "?m = []")
    case True
    then show ?thesis using cnt by (simp add: freeList_def)
  next
    case False
    then have "12 + length ?m * 8 \<le> length buf" using rng by simp
    then show ?thesis
      using map_tableEntry_putBlocks[of ?m buf] cnt by (simp add: freeList_def ent)
  qed
qed

lemma free_eq:
  assumes c: "getUint32 (buffer a) 4 = Inr c"
  shows "free a blk =
     (if maxFreeBlocks a \<le> c then (Inl FreeListFull, a)
      else if length (buffer a) < 12 + c * 8 + 4 then (Inl RangeError, a)
      else if length (buffer a) < 12 + c * 8 + 8
      then (Inl RangeError, a\<lparr>buffer := putUint32 (buffer a) (12 + c * 8) (offset blk)\<rparr>)
      else coalesceFreeBlocks (a\<lparr>buffer := appendFree (buffer a) blk\<rparr>))"
proof -
  have c': "beUint32 (buffer a) 4 = c"
    using c by (auto simp: getUint32_def split: if_splits)
  show ?thesis
    using c by (auto simp: free_def viewSet_simp appendFree_def c' Let_def)
qed

lemma length_appendFree [simp]: "length (appendFree buf blk) = length buf"
  by (simp add: appendFree_def Let_def)

lemma count_appendFree:
  "12 + beUint32 buf 4 * 8 + 8 \<le> length buf \<Longrightarrow>
   beUint32 (appendFree buf blk) 4 = (beUint32 buf 4 + 1) mod 4294967296"
  by (simp add: appendFree_def Let_def beUint32_putUint32_same)

lemma tableEntry_appendFree_old:
  "j < beUint32 buf 4 \<Longrightarrow> tableEntry (appendFree buf blk) j = tableEntry buf j"
  by (simp add: appendFree_def Let_def tableEntry_def beUint32_putUint32_other)

lemma tableEntry_appendFree_new:
  "12 + beUint32 buf 4 * 8 + 8 \<le> length buf \<Longrightarrow>
   tableEntry (appendFree buf blk) (beUint32 buf 4) = uint32Block blk"
  by (simp add: appendFree_def Let_def tableEntry_def uint32Block_def
      beUint32_putUint32_other beUint32_putUint32_same)

lemma freeList_appendFree:
  assumes "12 + beUint32 buf 4 * 8 + 8 \<le> length buf"
  shows "freeList (appendFree buf blk) =
     (if beUint32 buf 4 + 1 < 4294967296 then freeList buf @ [uint32Block blk] else [])"
proof (cases "beUint32 buf 4 + 1 < 4294967296")
  case True
  have "map (tableEntry (appendFree buf blk)) [0..<beUint32 buf 4]
        = map (tableEntry buf) [0..<beUint32 buf 4]"
    by (simp add: tableEntry_appendFree_old)
  then show ?thesis
    using True assms
    by (simp add: freeList_def count_appendFree tableEntry_appendFree_new)
next
  case False
  then have "beUint32 buf 4 + 1 = 4294967296" using beUint32_bound[of buf 4] by simp
  then show ?thesis using assms by (simp add: freeList_def count_appendFree)
qed

lemma free_success:
  assumes "fst (free a blk) = Inr ()"
  shows "\<exists>c. getUint32 (buffer a) 4 = Inr c \<and> c < maxFreeBlocks a
             \<and> 12 + c * 8 + 8 \<le> length (buffer a)"
proof (cases "getUint32 (buffer a) 4")
  case (Inl e)
  then show ?thesis using assms by (simp add: free_def)
next
  case (Inr c)
  show ?thesis using assms by (auto simp: free_eq[OF Inr] Inr split: if_splits)
qed

lemma free_result:
  assumes c: "getUint32 (buffer a) 4 = Inr c" and lt: "c < maxFreeBlocks a"
    and slot: "12 + c * 8 + 8 \<le> length (buffer a)"
  shows "free a blk =
     (Inr (), a\<lparr>buffer := putUint32 (putBlocks (appendFree (buffer a) blk) 0
                                 (coalesced (appendFree (buffer a) blk))) 4
                             (length (coalesced (appendFree (buffer a) blk)))\<rparr>)"
    and "freeList (buffer (snd (free a blk))) = map uint32Block (coalesced (appendFree (buffer a) blk))"
proof -
  let ?A = "appendFree (buffer a) blk"
  have c': "beUint32 (buffer a) 4 = c"
    using c by (auto simp: getUint32_def split: if_splits)
  have cntA: "beUint32 ?A 4 = (c + 1) mod 4294967296"
    using count_appendFree[of "buffer a" blk] slot c' by simp
  have le: "(c + 1) mod 4294967296 \<le> c + 1" by simp
  have getA: "getUint32 (buffer (a\<lparr>buffer := ?A\<rparr>)) 4 = Inr ((c + 1) mod 4294967296)"
    using slot cntA by (simp add: getUint32_def)
  have rng: "(c + 1) mod 4294967296 = 0 \<or> 12 + ((c + 1) mod 4294967296) * 8 \<le> length (buffer (a\<lparr>buffer := ?A\<rparr>))"
  proof -
    have "((c + 1) mod 4294967296) * 8 \<le> (c + 1) * 8" using le by (rule mult_le_mono1)
    then have "12 + ((c + 1) mod 4294967296) * 8 \<le> length (buffer a)" using slot by linarith
    then show ?thesis by simp
  qed
  have "free a blk = coalesceFreeBlocks (a\<lparr>buffer := ?A\<rparr>)"
    using lt slot by (simp add: free_eq[OF c])
  also have "\<dots> = (Inr (), a\<lparr>buffer := putUint32 (putBlocks ?A 0 (coalesced ?A)) 4
                             (length (coalesced ?A))\<rparr>)"
    using coalesceFreeBlocks_eq[OF getA rng] by simp
  finally show r: "free a blk = (Inr (), a\<lparr>buffer := putUint32 (putBlocks ?A 0 (coalesced ?A)) 4
                             (length (coalesced ?A))\<rparr>)" .
  have "freeList (putUint32 (putBlocks ?A 0 (coalesced ?A)) 4 (length (coalesced ?A)))
         = map uint32Block (coalesced ?A)"
  proof (rule freeList_after_coalesce)
    show "beUint32 ?A 4 = 0 \<or> 12 + beUint32 ?A 4 * 8 \<le> length ?A"
      using rng cntA by simp
    show "8 \<le> length ?A" using slot by simp
  qed
  then show "freeList (buffer (snd (free a blk))) = map uint32Block (coalesced ?A)"
    by (simp add: r)
qed

lemma coalesced_separated: "separated (map uint32Block (coalesced buf))"
proof (rule separated_uint32Block)
  show "separated (coalesced buf)"
    unfolding coalesced_def
    by (rule mergeBlocks_separated) (simp_all add: separated_def)
  show "\<forall>b\<in>set (coalesced buf). offset b < 4294967296"
  proof
    fix b assume "b \<in> set (coalesced buf)"
    then have "offset b \<in> offset ` set (sort_key offset (freeList buf))"
      using mergeBlocks_offsets[of "[]" "sort_key offset (freeList buf)"]
      by (auto simp: coalesced_def)
    then show "offset b < 4294967296" using freeList_bounds by auto
  qed
qed

lemma mergeBlocks_covers:
  assumes "sorted (map offset bs)"
    "acc \<noteq> [] \<longrightarrow> (\<forall>c\<in>set bs. offset (last acc) \<le> offset c)"
    "(\<exists>e\<in>set acc. covers e x) \<or> x \<in> set bs"
  shows "\<exists>e\<in>set (mergeBlocks acc bs). covers e x"
  using assms
proof (induction bs arbitrary: acc)
  case Nil
  then show ?case by simp
next
  case (Cons b bs)
  have sorted: "sorted (map offset bs)" and bmin: "\<forall>c\<in>set bs. offset b \<le> offset c"
    using Cons.prems(1) by auto
  show ?case
  proof (cases "acc = [] \<or> offset (last acc) + size' (last acc) < offset b")
    case True
    have "\<exists>e\<in>set (mergeBlocks (acc @ [b]) bs). covers e x"
    proof (rule Cons.IH[OF sorted])
      show "acc @ [b] \<noteq> [] \<longrightarrow> (\<forall>c\<in>set bs. offset (last (acc @ [b])) \<le> offset c)"
        using bmin by simp
      show "(\<exists>e\<in>set (acc @ [b]). covers e x) \<or> x \<in> set bs"
        using Cons.prems(3) by (auto simp: covers_def)
    qed
    then show ?thesis using True by auto
  next
    case False
    then obtain ys l where acc: "acc = ys @ [l]" by (cases acc rule: rev_cases) auto
    let ?l' = "l\<lparr>size' := size' l + size' b\<rparr>"
    have lb: "offset l \<le> offset b" using Cons.prems(2) by (simp add: acc)
    have nl: "offset b \<le> offset l + size' l" using False by (simp add: acc)
    have "\<exists>e\<in>set (mergeBlocks (ys @ [?l']) bs). covers e x"
    proof (rule Cons.IH[OF sorted])
      show "ys @ [?l'] \<noteq> [] \<longrightarrow> (\<forall>c\<in>set bs. offset (last (ys @ [?l'])) \<le> offset c)"
        using bmin lb by auto
      show "(\<exists>e\<in>set (ys @ [?l']). covers e x) \<or> x \<in> set bs"
        using Cons.prems(3) lb nl by (auto simp: acc covers_def)
    qed
    then show ?thesis using False by (simp add: acc)
  qed
qed

lemma coalesced_covers:
  assumes "x \<in> set (freeList buf)"
  shows "\<exists>e\<in>set (coalesced buf). covers e x"
  unfolding coalesced_def
  by (rule mergeBlocks_covers) (use assms in simp_all)

lemma separated_nth:
  "separated bs \<longleftrightarrow> (\<forall>i j. i < j \<and> j < length bs \<longrightarrow>
      offset (bs ! i) + size' (bs ! i) < offset (bs ! j))"
  by (auto simp: separated_def sorted_wrt_iff_nth_less)

text \<open>
  C8. After a \<^verbatim>\<open>free\<close> that returns, the live entries of the free table, which are
  the first entries up to the count in the header, are strictly separated: for any
  two of them the end (offset plus size) of the earlier one is strictly below the
  offset of the later one, so consecutive entries neither overlap nor touch and the
  offsets are strictly ascending. The entries are the merged blocks that the
  coalescing pass computed from the table with the freed block appended, each field
  kept modulo \<open>2^32\<close>, and the count in the header is the number of merged blocks.
\<close>

theorem free_leaves_table_separated:
  assumes "free a blk = (Inr (), a')"
  shows "(\<forall>i j. i < j \<and> j < length (freeList (buffer a')) \<longrightarrow>
            offset (freeList (buffer a') ! i) + size' (freeList (buffer a') ! i)
              < offset (freeList (buffer a') ! j))
       \<and> (\<forall>i j. i < j \<and> j < length (freeList (buffer a')) \<longrightarrow>
            offset (freeList (buffer a') ! i) < offset (freeList (buffer a') ! j))
       \<and> freeList (buffer a') = map uint32Block (coalesced (appendFree (buffer a) blk))
       \<and> getUint32 (buffer a') 4 = Inr (length (coalesced (appendFree (buffer a) blk)))"
proof -
  from assms have "fst (free a blk) = Inr ()" by simp
  then obtain c where c: "getUint32 (buffer a) 4 = Inr c" "c < maxFreeBlocks a"
      "12 + c * 8 + 8 \<le> length (buffer a)"
    using free_success by blast
  let ?m = "coalesced (appendFree (buffer a) blk)"
  have fl: "freeList (buffer a') = map uint32Block ?m"
    using free_result(2)[OF c, of blk] assms by simp
  have sep: "separated (freeList (buffer a'))"
    unfolding fl by (rule coalesced_separated)
  have p1: "\<forall>i j. i < j \<and> j < length (freeList (buffer a')) \<longrightarrow>
            offset (freeList (buffer a') ! i) + size' (freeList (buffer a') ! i)
              < offset (freeList (buffer a') ! j)"
    using sep by (simp only: separated_nth)
  have p2: "\<forall>i j. i < j \<and> j < length (freeList (buffer a')) \<longrightarrow>
            offset (freeList (buffer a') ! i) < offset (freeList (buffer a') ! j)"
  proof (intro allI impI)
    fix i j assume ij: "i < j \<and> j < length (freeList (buffer a'))"
    then have "offset (freeList (buffer a') ! i) + size' (freeList (buffer a') ! i)
              < offset (freeList (buffer a') ! j)" using p1 by blast
    then show "offset (freeList (buffer a') ! i) < offset (freeList (buffer a') ! j)" by simp
  qed
  have len: "length ?m \<le> beUint32 (appendFree (buffer a) blk) 4" by (rule length_coalesced)
  have lt: "length ?m < 4294967296"
    using len beUint32_bound[of "appendFree (buffer a) blk" 4] by simp
  have buf': "buffer a' = putUint32 (putBlocks (appendFree (buffer a) blk) 0 ?m) 4 (length ?m)"
    using free_result(1)[OF c, of blk] assms by simp
  have cnt: "getUint32 (buffer a') 4 = Inr (length ?m)"
    using c(3) lt by (simp add: buf' getUint32_def beUint32_putUint32_same)
  show ?thesis using p1 p2 fl cnt by blast
qed

text \<open>
  C10, amended. \<^verbatim>\<open>free\<close> does not look at the pair it is given. When the count \<open>c\<close>
  in the header is below the configured maximum and the table slot at
  \<open>12 + c * 8\<close> lies inside the arena, the call returns, for every pair; the table then
  holds the result of coalescing the old entries with the pair taken modulo
  \<open>2^32\<close>, which was neither compared with the live blocks nor with the entries: an
  entry that starts inside or at the end of the one before it is merged into it by
  adding its size, so one merged block reaches over the pair, and a block freed twice
  is recorded with twice its size.
\<close>

theorem free_unvalidated:
  assumes "getUint32 (buffer a) 4 = Inr c" "c < maxFreeBlocks a"
    "12 + c * 8 + 8 \<le> length (buffer a)"
  shows "fst (free a blk) = Inr ()
     \<and> (c + 1 < 4294967296 \<longrightarrow>
          freeList (buffer (snd (free a blk)))
            = map uint32Block
                (mergeBlocks [] (sort_key offset (freeList (buffer a) @ [uint32Block blk])))
          \<and> (\<exists>e\<in>set (mergeBlocks [] (sort_key offset (freeList (buffer a) @ [uint32Block blk]))).
                covers e (uint32Block blk)))"
proof -
  have c': "beUint32 (buffer a) 4 = c"
    using assms(1) by (auto simp: getUint32_def split: if_splits)
  have s: "fst (free a blk) = Inr ()"
    using free_result(1)[OF assms, of blk] by simp
  have r: "freeList (buffer (snd (free a blk)))
            = map uint32Block
                (mergeBlocks [] (sort_key offset (freeList (buffer a) @ [uint32Block blk])))
          \<and> (\<exists>e\<in>set (mergeBlocks [] (sort_key offset (freeList (buffer a) @ [uint32Block blk]))).
                covers e (uint32Block blk))"
    if lt: "c + 1 < 4294967296"
  proof -
    have fa: "freeList (appendFree (buffer a) blk) = freeList (buffer a) @ [uint32Block blk]"
      using freeList_appendFree[of "buffer a" blk] assms(3) lt c' by simp
    have co: "coalesced (appendFree (buffer a) blk)
        = mergeBlocks [] (sort_key offset (freeList (buffer a) @ [uint32Block blk]))"
      by (simp add: coalesced_def fa)
    have "\<exists>e\<in>set (coalesced (appendFree (buffer a) blk)). covers e (uint32Block blk)"
      by (rule coalesced_covers) (simp add: fa)
    then show ?thesis
      using free_result(2)[OF assms, of blk] by (simp add: co)
  qed
  show ?thesis using s r by blast
qed

lemma oneFree_facts:
  "getUint32 (buffer oneFree) 4 = Inr 1" "maxFreeBlocks oneFree = 3"
  "length (buffer oneFree) = 64" "freeList (buffer oneFree) = [\<lparr>offset = 36, size' = 4\<rparr>]"
proof -
  show "getUint32 (buffer oneFree) 4 = Inr 1"
    by (simp add: oneFree_def getUint32_def beUint32_def)
  show "maxFreeBlocks oneFree = 3" "length (buffer oneFree) = 64"
    by (simp_all add: oneFree_def)
  show "freeList (buffer oneFree) = [\<lparr>offset = 36, size' = 4\<rparr>]"
    by code_simp
qed

theorem free_leaves_table_separated_witness:
  "free oneFree \<lparr>offset = 44, size' = 4\<rparr>
     = (Inr (), snd (free oneFree \<lparr>offset = 44, size' = 4\<rparr>))
   \<and> freeList (buffer (snd (free oneFree \<lparr>offset = 44, size' = 4\<rparr>)))
       = [\<lparr>offset = 36, size' = 4\<rparr>, \<lparr>offset = 44, size' = 4\<rparr>]
   \<and> (0::nat) < 1
   \<and> 1 < length (freeList (buffer (snd (free oneFree \<lparr>offset = 44, size' = 4\<rparr>))))
   \<and> offset (freeList (buffer (snd (free oneFree \<lparr>offset = 44, size' = 4\<rparr>))) ! 0)
       + size' (freeList (buffer (snd (free oneFree \<lparr>offset = 44, size' = 4\<rparr>))) ! 0)
       < offset (freeList (buffer (snd (free oneFree \<lparr>offset = 44, size' = 4\<rparr>))) ! 1)
   \<and> getUint32 (buffer (snd (free oneFree \<lparr>offset = 44, size' = 4\<rparr>))) 4 = Inr 2"
proof -
  let ?b = "\<lparr>offset = 44, size' = 4\<rparr>"
  have s: "fst (free oneFree ?b) = Inr ()" by code_simp
  have e: "free oneFree ?b = (Inr (), snd (free oneFree ?b))"
    using s by (simp add: prod_eq_iff)
  have fl: "freeList (buffer (snd (free oneFree ?b)))
       = [\<lparr>offset = 36, size' = 4\<rparr>, \<lparr>offset = 44, size' = 4\<rparr>]"
    by code_simp
  note t = free_leaves_table_separated [OF e]
  have l: "(0::nat) < 1 \<and> 1 < length (freeList (buffer (snd (free oneFree ?b))))"
    by (simp add: fl)
  have p: "offset (freeList (buffer (snd (free oneFree ?b))) ! 0)
       + size' (freeList (buffer (snd (free oneFree ?b))) ! 0)
       < offset (freeList (buffer (snd (free oneFree ?b))) ! 1)"
    using t l by blast
  have "length (coalesced (appendFree (buffer oneFree) ?b)) = 2"
    using t fl by (metis length_map length_Cons list.size(3) One_nat_def Suc_1)
  then have c: "getUint32 (buffer (snd (free oneFree ?b))) 4 = Inr 2"
    using t by simp
  show ?thesis using e fl l p c by blast
qed

theorem free_unvalidated_witness:
  "getUint32 (buffer oneFree) 4 = Inr 1 \<and> 1 < maxFreeBlocks oneFree
   \<and> 12 + 1 * 8 + 8 \<le> length (buffer oneFree) \<and> (1::nat) + 1 < 4294967296
   \<and> freeList (buffer oneFree) = [\<lparr>offset = 36, size' = 4\<rparr>]
   \<and> fst (free oneFree \<lparr>offset = 36, size' = 4\<rparr>) = Inr ()
   \<and> freeList (buffer (snd (free oneFree \<lparr>offset = 36, size' = 4\<rparr>)))
        = [\<lparr>offset = 36, size' = 8\<rparr>]
   \<and> covers \<lparr>offset = 36, size' = 8\<rparr> \<lparr>offset = 36, size' = 4\<rparr>"
proof -
  have h1: "getUint32 (buffer oneFree) 4 = Inr 1" by (rule oneFree_facts)
  have h2: "1 < maxFreeBlocks oneFree" by (simp add: oneFree_facts)
  have h3: "12 + 1 * 8 + 8 \<le> length (buffer oneFree)" by (simp add: oneFree_facts)
  have h4: "(1::nat) + 1 < 4294967296" by simp
  have u: "uint32Block \<lparr>offset = 36, size' = 4\<rparr> = \<lparr>offset = 36, size' = 4\<rparr>"
    "uint32Block \<lparr>offset = 36, size' = 8\<rparr> = \<lparr>offset = 36, size' = 8\<rparr>"
    by (simp_all add: uint32Block_def)
  have m: "mergeBlocks [] (sort_key offset (freeList (buffer oneFree)
             @ [\<lparr>offset = 36, size' = 4\<rparr>])) = [\<lparr>offset = 36, size' = 8\<rparr>]"
    by (simp add: oneFree_facts)
  note t = free_unvalidated [OF h1 h2 h3, of "\<lparr>offset = 36, size' = 4\<rparr>"]
  have r: "freeList (buffer (snd (free oneFree \<lparr>offset = 36, size' = 4\<rparr>)))
        = [\<lparr>offset = 36, size' = 8\<rparr>]"
    using t h4 by (simp add: m u)
  have cv: "covers \<lparr>offset = 36, size' = 8\<rparr> \<lparr>offset = 36, size' = 4\<rparr>"
    using t h4 by (simp add: m u)
  show ?thesis using h1 h2 h3 h4 oneFree_facts(4) t r cv by blast
qed

theorem free_unvalidated_counterexample:
  "newAllocator 12 100 = Inr tinyAllocator
   \<and> getUint32 (buffer tinyAllocator) 4 = Inr 0 \<and> 0 < maxFreeBlocks tinyAllocator
   \<and> free tinyAllocator \<lparr>offset = 812, size' = 4\<rparr> = (Inl RangeError, tinyAllocator)"
proof -
  have b: "putUint32 (putUint32 (putUint32 (replicate 12 0) 0 (12 + 100 * 8)) 4 0) 8 0
          = buffer tinyAllocator"
    unfolding tinyAllocator_def by code_simp
  have n: "newAllocator 12 100 = Inr tinyAllocator"
    using b by (simp add: newAllocator_eq tinyAllocator_def)
  have c: "getUint32 (buffer tinyAllocator) 4 = Inr 0"
    by (simp add: tinyAllocator_def getUint32_def beUint32_def)
  have f: "free tinyAllocator \<lparr>offset = 812, size' = 4\<rparr> = (Inl RangeError, tinyAllocator)"
    by (simp add: free_eq[OF c]) (simp add: tinyAllocator_def)
  show ?thesis using n c f by (simp add: tinyAllocator_def)
qed

lemma freeList_single:
  assumes "freeList buf = [e]"
  shows "beUint32 buf 4 = 1" "tableEntry buf 0 = e"
proof -
  have "length (freeList buf) = 1" using assms by simp
  then show c: "beUint32 buf 4 = 1" by (simp add: freeList_def)
  show "tableEntry buf 0 = e" using assms by (simp add: freeList_def c)
qed

lemma free_length:
  "length (buffer (snd (free a blk))) = length (buffer a)"
proof (cases "getUint32 (buffer a) 4")
  case (Inl e)
  then show ?thesis by (simp add: free_def)
next
  case (Inr c)
  show ?thesis
  proof (cases "c < maxFreeBlocks a \<and> 12 + c * 8 + 8 \<le> length (buffer a)")
    case True
    then show ?thesis using free_result(1)[OF Inr, of blk] by simp
  next
    case False
    then show ?thesis by (auto simp: free_eq[OF Inr])
  qed
qed

lemma allocate_exact_single:
  assumes fl: "freeList (buffer a) = [\<lparr>offset = off, size' = sz\<rparr>]"
    and len: "20 \<le> length (buffer a)"
  shows "fst (allocate a sz) = Inr \<lparr>offset = off, size' = sz\<rparr>"
proof -
  have c: "beUint32 (buffer a) 4 = 1" and e: "tableEntry (buffer a) 0 = \<lparr>offset = off, size' = sz\<rparr>"
    using freeList_single[OF fl] by simp_all
  have o: "beUint32 (buffer a) 12 = off" and s: "beUint32 (buffer a) 16 = sz"
    using e by (simp_all add: tableEntry_def)
  show ?thesis
    using len c o s
    by (simp add: allocate_def getUint32_def removeFreeBlock_def viewSet_simp)
qed

text \<open>
  C7, amended. Starting from an empty free list, when two blocks that are
  byte-adjacent (the end of the first is the offset of the second) are freed, both
  calls returning, and the fields involved fit 32 bits (the end of the second block
  is below \<open>2^32\<close>), an allocation of the sum of the two sizes returns the block
  that starts at the offset of the first block and has that size.
\<close>

theorem coalesce_adjacent_then_allocate:
  assumes empty: "getUint32 (buffer a) 4 = Inr 0"
    and f1: "free a b1 = (Inr (), a1)" and f2: "free a1 b2 = (Inr (), a2)"
    and adj: "offset b1 + size' b1 = offset b2"
    and fit: "offset b1 + size' b1 + size' b2 < 4294967296"
  shows "fst (allocate a2 (size' b1 + size' b2))
           = Inr \<lparr>offset = offset b1, size' = size' b1 + size' b2\<rparr>"
proof -
  have u1: "uint32Block b1 = b1" and u2: "uint32Block b2 = b2"
    using adj fit by (simp_all add: uint32Block_def)
  have s1: "fst (free a b1) = Inr ()" and s2: "fst (free a1 b2) = Inr ()"
    using f1 f2 by simp_all
  obtain c where c: "getUint32 (buffer a) 4 = Inr c" "c < maxFreeBlocks a"
      "12 + c * 8 + 8 \<le> length (buffer a)"
    using free_success[OF s1] by blast
  have c0: "c = 0" using c(1) empty by simp
  have e0: "freeList (buffer a) = []"
    using empty by (auto simp: freeList_def getUint32_def split: if_splits)
  have fl1: "freeList (buffer a1) = [b1]"
    using free_unvalidated[OF c, of b1] f1 by (simp add: c0 e0 u1)
  have len1: "length (buffer a1) = length (buffer a)"
    using free_length[of a b1] f1 by simp
  obtain c1 where c1: "getUint32 (buffer a1) 4 = Inr c1" "c1 < maxFreeBlocks a1"
      "12 + c1 * 8 + 8 \<le> length (buffer a1)"
    using free_success[OF s2] by blast
  have c11: "c1 = 1"
    using c1(1) freeList_single(1)[OF fl1] by (auto simp: getUint32_def split: if_splits)
  have le: "offset b1 \<le> offset b2" and nlt: "\<not> offset b1 + size' b1 < offset b2"
    using adj by simp_all
  have u3: "uint32Block (b1\<lparr>size' := size' b1 + size' b2\<rparr>)
             = \<lparr>offset = offset b1, size' = size' b1 + size' b2\<rparr>"
    using fit by (simp add: uint32Block_def)
  have fl2: "freeList (buffer a2) = [\<lparr>offset = offset b1, size' = size' b1 + size' b2\<rparr>]"
    using free_unvalidated[OF c1, of b2] f2 by (simp add: c11 fl1 u2 le nlt u3)
  have len2: "length (buffer a2) = length (buffer a1)"
    using free_length[of a1 b2] f2 by simp
  show ?thesis
    using c1(3) c11 len2 by (intro allocate_exact_single[OF fl2]) simp
qed

theorem coalesce_adjacent_then_allocate_witness:
  "getUint32 (buffer noneFree) 4 = Inr 0
   \<and> free noneFree \<lparr>offset = 36, size' = 4\<rparr> = (Inr (), oneFree)
   \<and> free oneFree \<lparr>offset = 40, size' = 4\<rparr>
        = (Inr (), snd (free oneFree \<lparr>offset = 40, size' = 4\<rparr>))
   \<and> (36::nat) + 4 = 40 \<and> (36::nat) + 4 + 4 < 4294967296
   \<and> fst (allocate (snd (free oneFree \<lparr>offset = 40, size' = 4\<rparr>)) (4 + 4))
        = Inr \<lparr>offset = 36, size' = 4 + 4\<rparr>"
proof -
  have h1: "getUint32 (buffer noneFree) 4 = Inr 0"
    by (simp add: noneFree_def getUint32_def beUint32_def)
  have b: "buffer (snd (free noneFree \<lparr>offset = 36, size' = 4\<rparr>)) = buffer oneFree"
    by code_simp
  have "0 < maxFreeBlocks noneFree" "12 + 0 * 8 + 8 \<le> length (buffer noneFree)"
    by (simp_all add: noneFree_def)
  from free_result(1)[OF h1 this, of "\<lparr>offset = 36, size' = 4\<rparr>"] b
  have h2: "free noneFree \<lparr>offset = 36, size' = 4\<rparr> = (Inr (), oneFree)"
    by (simp add: noneFree_def oneFree_def)
  have "fst (free oneFree \<lparr>offset = 40, size' = 4\<rparr>) = Inr ()" by code_simp
  then have h3: "free oneFree \<lparr>offset = 40, size' = 4\<rparr>
        = (Inr (), snd (free oneFree \<lparr>offset = 40, size' = 4\<rparr>))"
    by (simp add: prod_eq_iff)
  have h4: "offset \<lparr>offset = 36, size' = 4\<rparr> + size' \<lparr>offset = 36, size' = 4\<rparr>
             = offset \<lparr>offset = 40, size' = 4\<rparr>"
    by simp
  have h5: "offset \<lparr>offset = 36, size' = 4\<rparr> + size' \<lparr>offset = 36, size' = 4\<rparr>
             + size' \<lparr>offset = 40, size' = 4\<rparr> < 4294967296"
    by simp
  show ?thesis
    using h1 h2 h3 coalesce_adjacent_then_allocate [OF h1 h2 h3 h4 h5] by simp
qed

lemma newAllocator_wrap0: "newAllocator 32 2 = Inr wrap0"
proof -
  have "putUint32 (putUint32 (putUint32 (replicate 32 0) 0 (12 + 2 * 8)) 4 0) 8 0
          = putUint32 (replicate 32 0) 0 28"
    by code_simp
  then show ?thesis by (simp add: newAllocator_eq wrap0_def)
qed

theorem coalesce_adjacent_then_allocate_counterexample:
  "newAllocator 32 2 = Inr wrap0
   \<and> fst (allocate wrap0 4) = Inr \<lparr>offset = 28, size' = 4\<rparr>
   \<and> fst (allocate wrap1 4294967300) = Inr \<lparr>offset = 32, size' = 4294967300\<rparr>
   \<and> getUint32 (buffer wrap2) 4 = Inr 0
   \<and> fst (free wrap2 \<lparr>offset = 28, size' = 4\<rparr>) = Inr ()
   \<and> fst (free wrap3 \<lparr>offset = 32, size' = 4294967300\<rparr>) = Inr ()
   \<and> (28::nat) + 4 = 32
   \<and> fst (allocate wrap4 (4 + 4294967300)) = Inr \<lparr>offset = 36, size' = 4294967304\<rparr>"
proof -
  have "fst (allocate wrap0 4) = Inr \<lparr>offset = 28, size' = 4\<rparr>
   \<and> fst (allocate wrap1 4294967300) = Inr \<lparr>offset = 32, size' = 4294967300\<rparr>
   \<and> getUint32 (buffer wrap2) 4 = Inr 0
   \<and> fst (free wrap2 \<lparr>offset = 28, size' = 4\<rparr>) = Inr ()
   \<and> fst (free wrap3 \<lparr>offset = 32, size' = 4294967300\<rparr>) = Inr ()
   \<and> (28::nat) + 4 = 32
   \<and> fst (allocate wrap4 (4 + 4294967300)) = Inr \<lparr>offset = 36, size' = 4294967304\<rparr>"
    by code_simp
  then show ?thesis using newAllocator_wrap0 by simp
qed

lemma blockRange_nonempty: "0 < size' b \<Longrightarrow> offset b \<in> blockRange b"
  by (simp add: blockRange_def)

lemma disjoint_sorted_tight:
  assumes "offset x \<le> offset y" "blockRange x \<inter> blockRange y = {}" "0 < size' x" "0 < size' y"
  shows "offset x + size' x \<le> offset y"
proof (rule ccontr)
  assume "\<not> offset x + size' x \<le> offset y"
  then have "offset y \<in> blockRange x" "offset y \<in> blockRange y"
    using assms by (simp_all add: blockRange_def)
  then show False using assms(2) by blast
qed

lemma disjointBlocks_sorted_tight:
  assumes "disjointBlocks xs" "sorted (map offset xs)"
  shows "sorted_wrt (\<lambda>x y. offset x + size' x \<le> offset y) xs"
proof -
  have s: "\<forall>i j. i < j \<longrightarrow> j < length xs \<longrightarrow> offset (xs ! i) \<le> offset (xs ! j)"
    using assms(2) by (simp add: sorted_iff_nth_mono)
  show ?thesis
    unfolding sorted_wrt_iff_nth_less
  proof (intro allI impI)
    fix i j assume ij: "i < j" "j < length xs"
    then have ne: "xs ! i \<noteq> xs ! j"
      using assms(1) by (auto simp: disjointBlocks_def distinct_conv_nth)
    have mem: "xs ! i \<in> set xs" "xs ! j \<in> set xs" using ij by simp_all
    show "offset (xs ! i) + size' (xs ! i) \<le> offset (xs ! j)"
    proof (rule disjoint_sorted_tight)
      show "offset (xs ! i) \<le> offset (xs ! j)" using s ij by blast
      show "blockRange (xs ! i) \<inter> blockRange (xs ! j) = {}"
        using assms(1) ne mem unfolding disjointBlocks_def by blast
      show "0 < size' (xs ! i)" "0 < size' (xs ! j)"
        using assms(1) mem unfolding disjointBlocks_def by blast+
    qed
  qed
qed

lemma mergeBlocks_exact:
  assumes "sorted_wrt (\<lambda>x y. offset x + size' x \<le> offset y) bs"
    "acc \<noteq> [] \<longrightarrow> (\<forall>c\<in>set bs. offset (last acc) + size' (last acc) \<le> offset c)"
  shows "(\<Union>x\<in>set (mergeBlocks acc bs). blockRange x)
           = (\<Union>x\<in>set acc. blockRange x) \<union> (\<Union>x\<in>set bs. blockRange x)
       \<and> ((\<forall>x\<in>set acc \<union> set bs. 0 < size' x) \<longrightarrow> (\<forall>x\<in>set (mergeBlocks acc bs). 0 < size' x))
       \<and> ((\<forall>x\<in>set acc \<union> set bs. offset x + size' x \<le> B)
             \<longrightarrow> (\<forall>x\<in>set (mergeBlocks acc bs). offset x + size' x \<le> B))"
  using assms
proof (induction bs arbitrary: acc)
  case Nil
  then show ?case by simp
next
  case (Cons b bs)
  have sorted: "sorted_wrt (\<lambda>x y. offset x + size' x \<le> offset y) bs"
    and bmin: "\<forall>c\<in>set bs. offset b + size' b \<le> offset c"
    using Cons.prems(1) by auto
  show ?case
  proof (cases "acc = [] \<or> offset (last acc) + size' (last acc) < offset b")
    case True
    have step: "mergeBlocks acc (b # bs) = mergeBlocks (acc @ [b]) bs" using True by auto
    have ih: "(\<Union>x\<in>set (mergeBlocks (acc @ [b]) bs). blockRange x)
           = (\<Union>x\<in>set (acc @ [b]). blockRange x) \<union> (\<Union>x\<in>set bs. blockRange x)
       \<and> ((\<forall>x\<in>set (acc @ [b]) \<union> set bs. 0 < size' x)
             \<longrightarrow> (\<forall>x\<in>set (mergeBlocks (acc @ [b]) bs). 0 < size' x))
       \<and> ((\<forall>x\<in>set (acc @ [b]) \<union> set bs. offset x + size' x \<le> B)
             \<longrightarrow> (\<forall>x\<in>set (mergeBlocks (acc @ [b]) bs). offset x + size' x \<le> B))"
      by (rule Cons.IH[OF sorted]) (use bmin in simp)
    show ?thesis
      unfolding step
    proof (intro conjI impI)
      show "(\<Union>x\<in>set (mergeBlocks (acc @ [b]) bs). blockRange x)
           = (\<Union>x\<in>set acc. blockRange x) \<union> (\<Union>x\<in>set (b # bs). blockRange x)"
      proof -
        have "(\<Union>x\<in>set (mergeBlocks (acc @ [b]) bs). blockRange x)
           = (\<Union>x\<in>set (acc @ [b]). blockRange x) \<union> (\<Union>x\<in>set bs. blockRange x)"
          using ih by (rule conjunct1)
        also have "\<dots> = (\<Union>x\<in>set acc. blockRange x) \<union> (\<Union>x\<in>set (b # bs). blockRange x)"
          by auto
        finally show ?thesis .
      qed
      show "\<forall>x\<in>set (mergeBlocks (acc @ [b]) bs). 0 < size' x"
        if "\<forall>x\<in>set acc \<union> set (b # bs). 0 < size' x"
        using ih that by simp
      show "\<forall>x\<in>set (mergeBlocks (acc @ [b]) bs). offset x + size' x \<le> B"
        if "\<forall>x\<in>set acc \<union> set (b # bs). offset x + size' x \<le> B"
        using ih that by simp
    qed
  next
    case False
    then obtain ys l where acc: "acc = ys @ [l]" by (cases acc rule: rev_cases) auto
    let ?l' = "l\<lparr>size' := size' l + size' b\<rparr>"
    have eq: "offset l + size' l = offset b"
      using False Cons.prems(2) by (simp add: acc)
    have step: "mergeBlocks acc (b # bs) = mergeBlocks (ys @ [?l']) bs"
      using False by (simp add: acc)
    have rng: "blockRange ?l' = blockRange l \<union> blockRange b"
      using eq by (auto simp: blockRange_def)
    have ih: "(\<Union>x\<in>set (mergeBlocks (ys @ [?l']) bs). blockRange x)
           = (\<Union>x\<in>set (ys @ [?l']). blockRange x) \<union> (\<Union>x\<in>set bs. blockRange x)
       \<and> ((\<forall>x\<in>set (ys @ [?l']) \<union> set bs. 0 < size' x)
             \<longrightarrow> (\<forall>x\<in>set (mergeBlocks (ys @ [?l']) bs). 0 < size' x))
       \<and> ((\<forall>x\<in>set (ys @ [?l']) \<union> set bs. offset x + size' x \<le> B)
             \<longrightarrow> (\<forall>x\<in>set (mergeBlocks (ys @ [?l']) bs). offset x + size' x \<le> B))"
    proof (rule Cons.IH[OF sorted], intro impI ballI)
      fix c assume "c \<in> set bs"
      then have "offset b + size' b \<le> offset c" using bmin by blast
      then show "offset (last (ys @ [?l'])) + size' (last (ys @ [?l'])) \<le> offset c"
        using eq by simp
    qed
    have e1: "(\<Union>x\<in>set (ys @ [?l']). blockRange x) \<union> (\<Union>x\<in>set bs. blockRange x)
          = (\<Union>x\<in>set acc. blockRange x) \<union> (\<Union>x\<in>set (b # bs). blockRange x)"
      using rng by (auto simp: acc)
    have e2: "(\<forall>x\<in>set acc \<union> set (b # bs). 0 < size' x)
          \<Longrightarrow> (\<forall>x\<in>set (ys @ [?l']) \<union> set bs. 0 < size' x)"
      by (auto simp: acc)
    have e3: "(\<forall>x\<in>set acc \<union> set (b # bs). offset x + size' x \<le> B)
          \<Longrightarrow> (\<forall>x\<in>set (ys @ [?l']) \<union> set bs. offset x + size' x \<le> B)"
      using eq by (auto simp: acc)
    show ?thesis
      unfolding step
    proof (intro conjI impI)
      show "(\<Union>x\<in>set (mergeBlocks (ys @ [?l']) bs). blockRange x)
           = (\<Union>x\<in>set acc. blockRange x) \<union> (\<Union>x\<in>set (b # bs). blockRange x)"
        using ih e1 by simp
      show "\<forall>x\<in>set (mergeBlocks (ys @ [?l']) bs). 0 < size' x"
        if "\<forall>x\<in>set acc \<union> set (b # bs). 0 < size' x"
        using ih e2[OF that] by blast
      show "\<forall>x\<in>set (mergeBlocks (ys @ [?l']) bs). offset x + size' x \<le> B"
        if "\<forall>x\<in>set acc \<union> set (b # bs). offset x + size' x \<le> B"
        using ih e3[OF that] by blast
    qed
  qed
qed

lemma separated_disjoint:
  assumes "separated m" "\<forall>x\<in>set m. 0 < size' x"
  shows "disjointBlocks m"
proof -
  have nth: "\<forall>i j. i < j \<longrightarrow> j < length m \<longrightarrow> offset (m ! i) + size' (m ! i) < offset (m ! j)"
    using assms(1) by (simp add: separated_def sorted_wrt_iff_nth_less)
  have d: "distinct m"
    unfolding distinct_conv_nth
  proof (intro allI impI)
    fix i j assume "i < length m" "j < length m" "i \<noteq> j"
    then consider "i < j" | "j < i" by linarith
    then show "m ! i \<noteq> m ! j"
    proof cases
      case 1 then show ?thesis using nth \<open>j < length m\<close> by fastforce
    next
      case 2 then show ?thesis using nth \<open>i < length m\<close> by fastforce
    qed
  qed
  have dj: "blockRange b \<inter> blockRange c = {}" if "b \<in> set m" "c \<in> set m" "b \<noteq> c" for b c
  proof -
    have "\<exists>i<length m. m ! i = b" using that(1) by (simp add: in_set_conv_nth)
    then obtain i where i: "i < length m" "m ! i = b" by blast
    have "\<exists>j<length m. m ! j = c" using that(2) by (simp add: in_set_conv_nth)
    then obtain j where j: "j < length m" "m ! j = c" by blast
    note ij = i(1) j(1) i(2) j(2)
    then have "i \<noteq> j" using that by auto
    then consider "i < j" | "j < i" by linarith
    then show ?thesis
    proof cases
      case 1
      then have "offset b + size' b < offset c" using nth ij by blast
      then show ?thesis by (auto simp: blockRange_def)
    next
      case 2
      then have "offset c + size' c < offset b" using nth ij by blast
      then show ?thesis by (auto simp: blockRange_def)
    qed
  qed
  show ?thesis unfolding disjointBlocks_def using d assms(2) dj by blast
qed

lemma header_putBlocks:
  "beUint32 (putBlocks buf i bs) 0 = beUint32 buf 0"
  "beUint32 (putBlocks buf i bs) 4 = beUint32 buf 4"
  by (simp_all add: beUint32_putBlocks_other)

lemma tableEntry_putBlocks_other:
  "k < i \<or> i + length bs \<le> k \<Longrightarrow> tableEntry (putBlocks buf i bs) k = tableEntry buf k"
  by (auto simp: tableEntry_def beUint32_putBlocks_other)

lemma freeList_putBlocks_single:
  assumes j: "j < beUint32 buf 4" and rng: "12 + beUint32 buf 4 * 8 \<le> length buf"
  shows "freeList (putBlocks buf j [b]) = (freeList buf)[j := uint32Block b]"
proof (rule nth_equalityI)
  show "length (freeList (putBlocks buf j [b])) = length ((freeList buf)[j := uint32Block b])"
    by (simp add: freeList_def header_putBlocks del: putBlocks.simps)
next
  fix k assume "k < length (freeList (putBlocks buf j [b]))"
  then have k: "k < beUint32 buf 4"
    by (simp add: freeList_def header_putBlocks del: putBlocks.simps)
  have in_rng: "12 + (j + length [b]) * 8 \<le> length buf" using j rng by simp
  show "freeList (putBlocks buf j [b]) ! k = (freeList buf)[j := uint32Block b] ! k"
  proof (cases "k = j")
    case True
    have "tableEntry (putBlocks buf j [b]) (j + 0) = uint32Block ([b] ! 0)"
      by (rule tableEntry_putBlocks[OF in_rng]) simp
    then show ?thesis using True k
      by (simp add: freeList_def header_putBlocks del: putBlocks.simps)
  next
    case False
    have "tableEntry (putBlocks buf j [b]) k = tableEntry buf k"
      by (rule tableEntry_putBlocks_other) (use False in auto)
    then show ?thesis using False k
      by (simp add: freeList_def header_putBlocks del: putBlocks.simps)
  qed
qed

lemma removeFreeBlock_eq:
  assumes j: "j < beUint32 (buffer a) 4"
    and rng: "12 + beUint32 (buffer a) 4 * 8 \<le> length (buffer a)"
  shows "removeFreeBlock a j = (Inr (), a\<lparr>buffer := removeEntry (buffer a) j\<rparr>)"
proof -
  let ?buf = "buffer a"
  let ?c = "beUint32 ?buf 4"
  let ?b1 = "putUint32 ?buf 4 (?c - 1)"
  have c0: "?c \<noteq> 0" using j by simp
  have len: "12 \<le> length ?buf" "8 \<le> length ?buf" using rng by simp_all
  show ?thesis
  proof (cases "j < ?c - 1")
    case True
    have r1: "12 + (?c - 1) * 8 + 8 \<le> length ?buf" using rng c0 by (cases ?c) simp_all
    have r2: "12 + j * 8 + 8 \<le> length ?buf" using True r1 by simp
    have lo: "beUint32 ?b1 (12 + (?c - 1) * 8) = beUint32 ?buf (12 + (?c - 1) * 8)"
      by (simp add: beUint32_putUint32_other)
    have ls: "beUint32 (putUint32 ?b1 (12 + j * 8) x) (12 + (?c - 1) * 8 + 4)
                = beUint32 ?buf (12 + (?c - 1) * 8 + 4)" for x
      using True by (simp add: beUint32_putUint32_other)
    show ?thesis
      using True c0 len r1 r2
      by (simp add: removeFreeBlock_def getUint32_def viewSet_simp removeEntry_def Let_def
          beUint32_putUint32_other tableEntry_def)
  next
    case False
    then show ?thesis
      using c0 len
      by (simp add: removeFreeBlock_def getUint32_def viewSet_simp removeEntry_def Let_def)
  qed
qed

lemma length_removeEntry [simp]: "length (removeEntry buf j) = length buf"
  by (simp add: removeEntry_def Let_def del: putBlocks.simps)

lemma removeEntry_header:
  assumes "8 \<le> length buf" "0 < beUint32 buf 4"
  shows "beUint32 (removeEntry buf j) 0 = beUint32 buf 0"
    "beUint32 (removeEntry buf j) 4 = beUint32 buf 4 - 1"
proof -
  have lt: "beUint32 buf 4 - 1 < 4294967296" using beUint32_bound[of buf 4] by simp
  show "beUint32 (removeEntry buf j) 0 = beUint32 buf 0"
    by (simp add: removeEntry_def Let_def header_putBlocks beUint32_putUint32_other
        del: putBlocks.simps)
  show "beUint32 (removeEntry buf j) 4 = beUint32 buf 4 - 1"
    using assms lt
    by (simp add: removeEntry_def Let_def header_putBlocks beUint32_putUint32_same
        del: putBlocks.simps)
qed

lemma tableEntry_putUint32_header:
  "off \<le> 8 \<Longrightarrow> tableEntry (putUint32 buf off v) k = tableEntry buf k"
  by (simp add: tableEntry_def beUint32_putUint32_other)

lemma freeList_removeEntry:
  assumes j: "j < beUint32 buf 4" and rng: "12 + beUint32 buf 4 * 8 \<le> length buf"
  shows "freeList (removeEntry buf j) =
     (if j < beUint32 buf 4 - 1 then (butlast (freeList buf))[j := last (freeList buf)]
      else butlast (freeList buf))"
proof -
  define c where "c = beUint32 buf 4"
  define v where "v = c - 1"
  define b1 where "b1 = putUint32 buf 4 v"
  have c0: "0 < c" using j by (simp add: c_def)
  have cv: "c = Suc v" using c0 by (simp add: v_def)
  have len8: "8 \<le> length buf" using rng by simp
  have lt: "v < 4294967296" using beUint32_bound[of buf 4] by (simp add: v_def c_def)
  have cnt1: "beUint32 b1 4 = v" using len8 lt by (simp add: b1_def beUint32_putUint32_same)
  have ent1: "tableEntry b1 = tableEntry buf"
    by (rule ext) (simp add: b1_def tableEntry_putUint32_header)
  have fl: "freeList buf = map (tableEntry buf) [0..<v] @ [tableEntry buf v]"
    by (simp add: freeList_def c_def[symmetric] cv)
  have "freeList b1 = map (tableEntry buf) [0..<v]"
    by (simp add: freeList_def cnt1 ent1)
  then have fl1: "freeList b1 = butlast (freeList buf)"
    by (simp only: fl butlast_snoc)
  have lastfl: "last (freeList buf) = tableEntry buf v"
    by (simp add: fl)
  have u: "uint32Block (tableEntry buf v) = tableEntry buf v"
    using tableEntry_offset_bound[of buf v] tableEntry_size_bound[of buf v]
    by (simp add: uint32Block_def)
  have re: "removeEntry buf j = (if j < v then putBlocks b1 j [tableEntry buf v] else b1)"
    by (simp only: removeEntry_def Let_def c_def[symmetric] v_def[symmetric] b1_def[symmetric])
  show ?thesis
  proof (cases "j < v")
    case True
    have "freeList (putBlocks b1 j [tableEntry buf v])
            = (freeList b1)[j := uint32Block (tableEntry buf v)]"
    proof (rule freeList_putBlocks_single)
      show "j < beUint32 b1 4" using True cnt1 by simp
      show "12 + beUint32 b1 4 * 8 \<le> length b1"
        using rng cnt1 by (simp add: b1_def c_def[symmetric] cv)
    qed
    then show ?thesis
      using True by (simp only: re c_def[symmetric] v_def[symmetric] fl1 u lastfl if_True)
  next
    case False
    then show ?thesis
      by (simp only: re c_def[symmetric] v_def[symmetric] fl1 if_False)
  qed
qed

lemma mset_swap_remove:
  assumes "j < length fl"
  shows "mset (if j < length fl - 1 then (butlast fl)[j := last fl] else butlast fl)
           + {#fl ! j#} = mset fl"
proof -
  have ne: "fl \<noteq> []" using assms by auto
  then obtain ys l where fl: "fl = ys @ [l]" by (cases fl rule: rev_cases) auto
  show ?thesis
  proof (cases "j < length fl - 1")
    case True
    then have j: "j < length ys" by (simp add: fl)
    have "mset (ys[j := l]) = add_mset l (mset ys - {#ys ! j#})"
      using j by (rule mset_update)
    moreover have "ys ! j \<in># mset ys" using j by simp
    ultimately show ?thesis using True j by (simp add: fl nth_append)
  next
    case False
    then have "j = length ys" using assms by (simp add: fl)
    then show ?thesis using False by (simp add: fl)
  qed
qed

lemma disjointBlocks_mset:
  assumes "mset xs = mset ys" "disjointBlocks xs"
  shows "disjointBlocks ys"
proof -
  have "set xs = set ys" using assms(1) by (rule mset_eq_setD)
  moreover have "distinct xs = distinct ys" using assms(1) by (rule mset_eq_imp_distinct_iff)
  ultimately show ?thesis using assms(2) by (simp add: disjointBlocks_def)
qed

lemma disjointBlocks_Cons:
  "disjointBlocks (b # zs) \<longleftrightarrow>
     0 < size' b \<and> (\<forall>z\<in>set zs. blockRange b \<inter> blockRange z = {}) \<and> disjointBlocks zs"
proof
  assume d: "disjointBlocks (b # zs)"
  then have "b \<notin> set zs" "0 < size' b" "disjointBlocks zs"
    by (auto simp: disjointBlocks_def)
  moreover have "\<forall>z\<in>set zs. blockRange b \<inter> blockRange z = {}"
  proof
    fix z assume z: "z \<in> set zs"
    then have "b \<noteq> z" using \<open>b \<notin> set zs\<close> by blast
    moreover have "b \<in> set (b # zs)" "z \<in> set (b # zs)" using z by simp_all
    ultimately show "blockRange b \<inter> blockRange z = {}"
      using d unfolding disjointBlocks_def by blast
  qed
  ultimately show "0 < size' b \<and> (\<forall>z\<in>set zs. blockRange b \<inter> blockRange z = {}) \<and> disjointBlocks zs"
    by blast
next
  assume h: "0 < size' b \<and> (\<forall>z\<in>set zs. blockRange b \<inter> blockRange z = {}) \<and> disjointBlocks zs"
  then have pos: "0 < size' b" and dj: "\<forall>z\<in>set zs. blockRange b \<inter> blockRange z = {}"
    and dz: "disjointBlocks zs"
    by simp_all
  have inb: "offset b \<in> blockRange b" using pos by (rule blockRange_nonempty)
  have nb: "b \<notin> set zs"
  proof
    assume "b \<in> set zs"
    then have "blockRange b \<inter> blockRange b = {}" by (rule dj[rule_format])
    then show False using inb by simp
  qed
  have dzs: "distinct zs" and pzs: "\<forall>z\<in>set zs. 0 < size' z"
    and qzs: "\<forall>x\<in>set zs. \<forall>y\<in>set zs. x \<noteq> y \<longrightarrow> blockRange x \<inter> blockRange y = {}"
    using dz by (simp_all add: disjointBlocks_def)
  have pw: "blockRange x \<inter> blockRange y = {}"
    if xy: "x \<in> set (b # zs)" "y \<in> set (b # zs)" "x \<noteq> y" for x y
  proof -
    have "(x = b \<and> y \<in> set zs) \<or> (y = b \<and> x \<in> set zs) \<or> (x \<in> set zs \<and> y \<in> set zs)"
      using xy by auto
    then consider "x = b" "y \<in> set zs" | "y = b" "x \<in> set zs" | "x \<in> set zs" "y \<in> set zs"
      by blast
    then show ?thesis
    proof cases
      case 1 then show ?thesis using dj by simp
    next
      case 2
      then have "blockRange b \<inter> blockRange x = {}" using dj by simp
      then show ?thesis using 2 by (simp add: Int_commute)
    next
      case 3 then show ?thesis using qzs xy(3) by simp
    qed
  qed
  show "disjointBlocks (b # zs)"
    unfolding disjointBlocks_def
  proof (intro conjI ballI impI)
    show "distinct (b # zs)" using nb dzs by simp
    show "0 < size' x" if "x \<in> set (b # zs)" for x
      using that pos pzs by auto
    show "blockRange x \<inter> blockRange y = {}"
      if "x \<in> set (b # zs)" "y \<in> set (b # zs)" "x \<noteq> y" for x y
      using pw[OF that] .
  qed
qed

lemma disjointBlocks_append:
  "disjointBlocks (xs @ ys) \<longleftrightarrow>
     disjointBlocks xs \<and> disjointBlocks ys
     \<and> (\<forall>x\<in>set xs. \<forall>y\<in>set ys. blockRange x \<inter> blockRange y = {})"
proof (induction xs)
  case Nil
  show ?case by (simp add: disjointBlocks_def)
next
  case (Cons x xs)
  show ?case
    unfolding append_Cons disjointBlocks_Cons Cons.IH by auto
qed

lemma disjointBlocks_remove1:
  assumes "disjointBlocks zs" "e \<in> set zs"
  shows "disjointBlocks (remove1 e zs)" "\<forall>z\<in>set (remove1 e zs). blockRange e \<inter> blockRange z = {}"
    "0 < size' e"
proof -
  have "mset zs = mset (e # remove1 e zs)" using assms(2) by simp
  then have "disjointBlocks (e # remove1 e zs)" using assms(1) by (rule disjointBlocks_mset)
  then show "disjointBlocks (remove1 e zs)"
    "\<forall>z\<in>set (remove1 e zs). blockRange e \<inter> blockRange z = {}" "0 < size' e"
    unfolding disjointBlocks_Cons by blast+
qed

lemma map_uint32Block_id:
  assumes "\<forall>x\<in>set m. offset x + size' x < 4294967296"
  shows "map uint32Block m = m"
proof (rule map_idI)
  fix x assume "x \<in> set m"
  then have "offset x + size' x < 4294967296" using assms by blast
  then show "uint32Block x = x" by (simp add: uint32Block_def)
qed

lemma separated_sorted_input:
  "separated (mergeBlocks [] (sort_key offset xs))"
  by (rule mergeBlocks_separated) (simp_all add: separated_def)

text \<open>Coalescing a list of disjoint blocks: same bytes, disjoint result.\<close>

lemma coalesce_disjoint:
  assumes d: "disjointBlocks zs" and B: "\<forall>z\<in>set zs. offset z + size' z \<le> B"
  defines "m \<equiv> mergeBlocks [] (sort_key offset zs)"
  shows "disjointBlocks m" "(\<Union>x\<in>set m. blockRange x) = (\<Union>x\<in>set zs. blockRange x)"
    "\<forall>x\<in>set m. offset x + size' x \<le> B"
proof -
  let ?xs = "sort_key offset zs"
  have dx: "disjointBlocks ?xs"
    by (rule disjointBlocks_mset[OF _ d]) simp
  have tight: "sorted_wrt (\<lambda>x y. offset x + size' x \<le> offset y) ?xs"
    by (rule disjointBlocks_sorted_tight[OF dx]) simp
  have ex: "(\<Union>x\<in>set m. blockRange x) = (\<Union>x\<in>set ?xs. blockRange x)
       \<and> ((\<forall>x\<in>set ?xs. 0 < size' x) \<longrightarrow> (\<forall>x\<in>set m. 0 < size' x))
       \<and> ((\<forall>x\<in>set ?xs. offset x + size' x \<le> B)
            \<longrightarrow> (\<forall>x\<in>set m. offset x + size' x \<le> B))"
    using mergeBlocks_exact[of ?xs "[]" B, OF tight] by (simp add: m_def)
  have pos: "\<forall>x\<in>set zs. 0 < size' x" using d by (simp add: disjointBlocks_def)
  show u: "(\<Union>x\<in>set m. blockRange x) = (\<Union>x\<in>set zs. blockRange x)"
    using ex by simp
  have mpos: "\<forall>x\<in>set m. 0 < size' x" using ex pos by simp
  show "\<forall>x\<in>set m. offset x + size' x \<le> B" using ex B by simp
  show "disjointBlocks m"
    unfolding m_def using mpos[unfolded m_def]
    by (intro separated_disjoint separated_sorted_input)
qed

lemma freeList_cong:
  assumes "beUint32 buf' 4 = beUint32 buf 4"
    "\<And>k. k < beUint32 buf 4 \<Longrightarrow> tableEntry buf' k = tableEntry buf k"
  shows "freeList buf' = freeList buf"
  using assms by (simp add: freeList_def)

lemma freeList_append:
  assumes "12 + beUint32 buf 4 * 8 \<le> length buf"
  shows "freeList (buf @ g) = freeList buf"
proof (rule freeList_cong)
  show "beUint32 (buf @ g) 4 = beUint32 buf 4" using assms by (simp add: beUint32_append)
  show "tableEntry (buf @ g) k = tableEntry buf k" if "k < beUint32 buf 4" for k
    using that assms by (simp add: tableEntry_def beUint32_append)
qed

lemma inv_append:
  assumes "arenaInv buf live"
  shows "arenaInv (buf @ g) live"
proof -
  have r: "12 + beUint32 buf 4 * 8 \<le> length buf" using assms by (simp add: arenaInv_def)
  have h: "beUint32 (buf @ g) 4 = beUint32 buf 4" "beUint32 (buf @ g) 0 = beUint32 buf 0"
    using r by (simp_all add: beUint32_append)
  show ?thesis
    using assms r by (simp add: arenaInv_def freeList_append[OF r] h)
qed

lemma freeList_putUint32_0: "freeList (putUint32 buf 0 v) = freeList buf"
  by (rule freeList_cong) (simp_all add: beUint32_putUint32_other tableEntry_putUint32_header)

lemma inv_bump:
  assumes inv: "arenaInv buf live" and sz: "0 < sz"
    and fit: "beUint32 buf 0 + sz < 4294967296"
  shows "arenaInv (putUint32 buf 0 (beUint32 buf 0 + sz))
           (\<lparr>offset = beUint32 buf 0, size' = sz\<rparr> # live)"
proof -
  let ?b = "\<lparr>offset = beUint32 buf 0, size' = sz\<rparr>"
  let ?buf' = "putUint32 buf 0 (beUint32 buf 0 + sz)"
  have r: "12 + beUint32 buf 4 * 8 \<le> length buf"
    and d: "disjointBlocks (freeList buf @ live)"
    and e: "\<forall>z\<in>set (freeList buf @ live). offset z + size' z \<le> beUint32 buf 0"
    using inv by (simp_all add: arenaInv_def)
  have bump': "beUint32 ?buf' 0 = beUint32 buf 0 + sz"
    using r fit by (simp add: beUint32_putUint32_same)
  have cnt': "beUint32 ?buf' 4 = beUint32 buf 4" by (simp add: beUint32_putUint32_other)
  have dj: "\<forall>z\<in>set (freeList buf @ live). blockRange ?b \<inter> blockRange z = {}"
  proof
    fix z assume "z \<in> set (freeList buf @ live)"
    then have "offset z + size' z \<le> beUint32 buf 0" using e by blast
    then show "blockRange ?b \<inter> blockRange z = {}" by (auto simp: blockRange_def)
  qed
  have "disjointBlocks (?b # (freeList buf @ live))"
    unfolding disjointBlocks_Cons using sz dj d by simp
  then have d': "disjointBlocks (freeList buf @ ?b # live)"
    by (rule disjointBlocks_mset[rotated]) simp
  have e': "\<forall>z\<in>set (freeList buf @ ?b # live). offset z + size' z \<le> beUint32 buf 0 + sz"
  proof
    fix z assume "z \<in> set (freeList buf @ ?b # live)"
    then have "z = ?b \<or> z \<in> set (freeList buf @ live)" by auto
    then show "offset z + size' z \<le> beUint32 buf 0 + sz"
    proof
      assume "z = ?b" then show ?thesis by simp
    next
      assume "z \<in> set (freeList buf @ live)"
      then have "offset z + size' z \<le> beUint32 buf 0" using e by blast
      then show ?thesis by simp
    qed
  qed
  show ?thesis
    using r d' e' by (simp add: arenaInv_def freeList_putUint32_0 bump' cnt')
qed

lemma inv_free_partial:
  assumes inv: "arenaInv buf live"
  shows "arenaInv (putUint32 buf (12 + beUint32 buf 4 * 8) v) live"
proof -
  let ?buf' = "putUint32 buf (12 + beUint32 buf 4 * 8) v"
  have h: "beUint32 ?buf' 4 = beUint32 buf 4" "beUint32 ?buf' 0 = beUint32 buf 0"
    by (simp_all add: beUint32_putUint32_other)
  have fl: "freeList ?buf' = freeList buf"
  proof (rule freeList_cong[OF h(1)])
    show "tableEntry ?buf' k = tableEntry buf k" if "k < beUint32 buf 4" for k
      using that by (simp add: tableEntry_def beUint32_putUint32_other)
  qed
  show ?thesis using inv by (simp add: arenaInv_def fl h)
qed

lemma inv_remove:
  assumes inv: "arenaInv buf live" and j: "j < beUint32 buf 4"
  shows "arenaInv (removeEntry buf j) (freeList buf ! j # live)"
proof -
  let ?fl = "freeList buf"
  let ?buf' = "removeEntry buf j"
  have r: "12 + beUint32 buf 4 * 8 \<le> length buf"
    and d: "disjointBlocks (?fl @ live)"
    and e: "\<forall>z\<in>set (?fl @ live). offset z + size' z \<le> beUint32 buf 0"
    using inv by (simp_all add: arenaInv_def)
  have len: "length ?fl = beUint32 buf 4" by (simp add: freeList_def)
  have c0: "0 < beUint32 buf 4" using j by simp
  have h: "beUint32 ?buf' 0 = beUint32 buf 0" "beUint32 ?buf' 4 = beUint32 buf 4 - 1"
    using removeEntry_header[of buf j] r c0 by simp_all
  have fl': "freeList ?buf' = (if j < length ?fl - 1 then (butlast ?fl)[j := last ?fl] else butlast ?fl)"
    using freeList_removeEntry[OF j r] by (simp add: len)
  have ms: "mset (freeList ?buf') + {#?fl ! j#} = mset ?fl"
    unfolding fl' using j len by (intro mset_swap_remove) simp
  have ms2: "mset (?fl @ live) = mset (freeList ?buf' @ ?fl ! j # live)"
    using ms by (simp add: ac_simps)
  have d': "disjointBlocks (freeList ?buf' @ ?fl ! j # live)"
    using ms2 d by (rule disjointBlocks_mset)
  have "set (?fl @ live) = set (freeList ?buf' @ ?fl ! j # live)"
    using ms2 by (rule mset_eq_setD)
  then have e': "\<forall>z\<in>set (freeList ?buf' @ ?fl ! j # live). offset z + size' z \<le> beUint32 buf 0"
    using e by simp
  have r': "12 + (beUint32 buf 4 - 1) * 8 \<le> length ?buf'"
    using r c0 by (cases "beUint32 buf 4") simp_all
  show ?thesis
    unfolding arenaInv_def h using r' d' e' by blast
qed

lemma inv_split:
  assumes inv: "arenaInv buf live" and j: "j < beUint32 buf 4" and sz: "0 < sz"
    and lt: "sz < size' (tableEntry buf j)"
  shows "arenaInv (putBlocks buf j [\<lparr>offset = offset (tableEntry buf j) + sz,
                                      size' = size' (tableEntry buf j) - sz\<rparr>])
           (\<lparr>offset = offset (tableEntry buf j), size' = sz\<rparr> # live)"
proof -
  let ?fl = "freeList buf"
  define e where "e = tableEntry buf j"
  define e1 where "e1 = \<lparr>offset = offset e, size' = sz\<rparr>"
  define e2 where "e2 = \<lparr>offset = offset e + sz, size' = size' e - sz\<rparr>"
  define buf' where "buf' = putBlocks buf j [e2]"
  have r: "12 + beUint32 buf 4 * 8 \<le> length buf"
    and d: "disjointBlocks (?fl @ live)"
    and en: "\<forall>z\<in>set (?fl @ live). offset z + size' z \<le> beUint32 buf 0"
    using inv by (simp_all add: arenaInv_def)
  have len: "length ?fl = beUint32 buf 4" by (simp add: freeList_def)
  have ej: "?fl ! j = e" using j by (simp add: freeList_def e_def)
  have emem: "e \<in> set (?fl @ live)" using j len ej by (metis nth_mem set_append UnI1)
  have eend: "offset e + size' e \<le> beUint32 buf 0" using en emem by blast
  have lt': "sz < size' e" using lt by (simp add: e_def)
  have u2: "uint32Block e2 = e2"
    using eend lt' beUint32_bound[of buf 0] by (simp add: uint32Block_def e2_def)
  have fl': "freeList buf' = ?fl[j := e2]"
    unfolding buf'_def using freeList_putBlocks_single[OF j r, of e2] u2 by simp
  have h: "beUint32 buf' 0 = beUint32 buf 0" "beUint32 buf' 4 = beUint32 buf 4"
    unfolding buf'_def by (rule header_putBlocks)+
  have lenb: "length buf' = length buf" unfolding buf'_def by (rule length_putBlocks)
  let ?rest = "remove1 e (?fl @ live)"
  have ein: "e \<in># mset ?fl" using j len ej by (metis nth_mem set_mset_mset)
  have "mset (?fl[j := e2]) = add_mset e2 (mset ?fl - {#?fl ! j#})"
    using j len by (intro mset_update) simp
  then have ms: "mset (freeList buf' @ e1 # live) = mset (e1 # e2 # ?rest)"
    using ein by (simp add: fl' ej)
  have drest: "disjointBlocks ?rest"
    and djrest: "\<forall>z\<in>set ?rest. blockRange e \<inter> blockRange z = {}"
    using disjointBlocks_remove1[OF d emem] by blast+
  have r1: "blockRange e1 \<subseteq> blockRange e" and r2: "blockRange e2 \<subseteq> blockRange e"
    and r12: "blockRange e1 \<inter> blockRange e2 = {}"
    using lt' by (auto simp: blockRange_def e1_def e2_def)
  have d2: "disjointBlocks (e2 # ?rest)"
    unfolding disjointBlocks_Cons using lt' drest djrest r2 by (auto simp: e2_def)
  have d1: "disjointBlocks (e1 # e2 # ?rest)"
  proof -
    have "\<forall>z\<in>set (e2 # ?rest). blockRange e1 \<inter> blockRange z = {}"
      using r12 djrest r1 by auto
    then show ?thesis
      using sz d2 by (subst disjointBlocks_Cons) (simp add: e1_def)
  qed
  have d': "disjointBlocks (freeList buf' @ e1 # live)"
    using ms[symmetric] d1 by (rule disjointBlocks_mset)
  have sub: "set ?rest \<subseteq> set (?fl @ live)" by (rule set_remove1_subset)
  have "\<forall>z\<in>set (e1 # e2 # ?rest). offset z + size' z \<le> beUint32 buf 0"
    using eend lt' en sub by (auto simp: e1_def e2_def)
  moreover have "set (freeList buf' @ e1 # live) = set (e1 # e2 # ?rest)"
    using ms by (rule mset_eq_setD)
  ultimately have e': "\<forall>z\<in>set (freeList buf' @ e1 # live). offset z + size' z \<le> beUint32 buf 0"
    by simp
  have "arenaInv buf' (e1 # live)"
    unfolding arenaInv_def h lenb using r d' e' by blast
  then show ?thesis by (simp add: buf'_def e1_def e2_def e_def)
qed

lemma header_appendFree:
  "beUint32 (appendFree buf b) 0 = beUint32 buf 0"
  by (simp add: appendFree_def Let_def beUint32_putUint32_other)

lemma inv_free:
  assumes inv: "arenaInv buf live" and b: "b \<in> set live"
    and slot: "12 + beUint32 buf 4 * 8 + 8 \<le> length buf"
  shows "arenaInv (putUint32 (putBlocks (appendFree buf b) 0 (coalesced (appendFree buf b))) 4
                     (length (coalesced (appendFree buf b))))
           (remove1 b live)"
proof -
  define A where "A = appendFree buf b"
  define m where "m = coalesced A"
  define buf' where "buf' = putUint32 (putBlocks A 0 m) 4 (length m)"
  let ?fl = "freeList buf"
  let ?live' = "remove1 b live"
  have d: "disjointBlocks (?fl @ live)"
    and en: "\<forall>z\<in>set (?fl @ live). offset z + size' z \<le> beUint32 buf 0"
    using inv by (simp_all add: arenaInv_def)
  have lenA: "length A = length buf" by (simp add: A_def)
  have cntA: "beUint32 A 4 = (beUint32 buf 4 + 1) mod 4294967296"
    unfolding A_def by (rule count_appendFree[OF slot])
  have cle: "beUint32 A 4 \<le> beUint32 buf 4 + 1" unfolding cntA by simp
  have ml: "length m \<le> beUint32 A 4" unfolding m_def by (rule length_coalesced)
  have rngA: "12 + beUint32 A 4 * 8 \<le> length A"
  proof -
    have "beUint32 A 4 * 8 \<le> (beUint32 buf 4 + 1) * 8" using cle by (rule mult_le_mono1)
    moreover have "(beUint32 buf 4 + 1) * 8 = beUint32 buf 4 * 8 + 8" by simp
    ultimately have "beUint32 A 4 * 8 \<le> beUint32 buf 4 * 8 + 8" by simp
    then show ?thesis using slot unfolding lenA by linarith
  qed
  have fl': "freeList buf' = map uint32Block m"
    unfolding buf'_def m_def
    by (rule freeList_after_coalesce) (use rngA lenA slot in simp_all)
  have mlt: "length m < 4294967296" using ml beUint32_bound[of A 4] by simp
  have bump': "beUint32 buf' 0 = beUint32 buf 0"
    by (simp add: buf'_def beUint32_putUint32_other header_putBlocks A_def header_appendFree)
  have cnt': "beUint32 buf' 4 = length m"
    using mlt slot lenA by (simp add: buf'_def beUint32_putUint32_same)
  have len': "length buf' = length buf" by (simp add: buf'_def lenA)
  have r': "12 + length m * 8 \<le> length buf'"
  proof -
    have "length m * 8 \<le> beUint32 A 4 * 8" using ml by (rule mult_le_mono1)
    then show ?thesis using rngA lenA len' by linarith
  qed
  have dparts: "disjointBlocks ?fl" "disjointBlocks live"
    "\<forall>x\<in>set ?fl. \<forall>y\<in>set live. blockRange x \<inter> blockRange y = {}"
    using d unfolding disjointBlocks_append by blast+
  have dl': "disjointBlocks ?live'"
    and bl': "\<forall>z\<in>set ?live'. blockRange b \<inter> blockRange z = {}"
    and bpos: "0 < size' b"
    using disjointBlocks_remove1[OF dparts(2) b] by blast+
  have sub: "set ?live' \<subseteq> set live" by (rule set_remove1_subset)
  have enl': "\<forall>z\<in>set ?live'. offset z + size' z \<le> beUint32 buf 0"
    using en sub by auto
  have main: "disjointBlocks (map uint32Block m @ ?live')
       \<and> (\<forall>z\<in>set (map uint32Block m @ ?live'). offset z + size' z \<le> beUint32 buf 0)"
  proof (cases "beUint32 buf 4 + 1 < 4294967296")
    case False
    have "freeList A = []"
      unfolding A_def using freeList_appendFree[OF slot, of b] False by simp
    then have "m = []" by (simp add: m_def coalesced_def)
    then show ?thesis using dl' enl' by simp
  next
    case True
    have bend: "offset b + size' b \<le> beUint32 buf 0" using en b by auto
    have ub: "uint32Block b = b"
      using bend beUint32_bound[of buf 0] by (simp add: uint32Block_def)
    have flA: "freeList A = ?fl @ [b]"
      unfolding A_def using freeList_appendFree[OF slot, of b] True ub by simp
    have dzs: "disjointBlocks (?fl @ [b])"
      unfolding disjointBlocks_append
    proof (intro conjI ballI)
      show "disjointBlocks ?fl" by (rule dparts(1))
      show "disjointBlocks [b]" using bpos by (simp add: disjointBlocks_def)
      show "blockRange x \<inter> blockRange y = {}" if "x \<in> set ?fl" "y \<in> set [b]" for x y
        using that dparts(3) b by simp
    qed
    have ezs: "\<forall>z\<in>set (?fl @ [b]). offset z + size' z \<le> beUint32 buf 0"
      using en bend by auto
    have m_eq: "m = mergeBlocks [] (sort_key offset (?fl @ [b]))"
      by (simp add: m_def coalesced_def flA)
    note co = coalesce_disjoint[OF dzs ezs, folded m_eq]
    have um: "map uint32Block m = m"
    proof (rule map_uint32Block_id, rule ballI)
      fix x assume "x \<in> set m"
      then have "offset x + size' x \<le> beUint32 buf 0" using co(3) by blast
      then show "offset x + size' x < 4294967296" using beUint32_bound[of buf 0] by simp
    qed
    have cross: "blockRange x \<inter> blockRange y = {}" if x: "x \<in> set m" and y: "y \<in> set ?live'" for x y
    proof -
      have "blockRange x \<subseteq> (\<Union>z\<in>set (?fl @ [b]). blockRange z)"
        using co(2) x by blast
      moreover have "blockRange z \<inter> blockRange y = {}" if "z \<in> set (?fl @ [b])" for z
      proof (cases "z = b")
        case True
        then show ?thesis using bl' y by simp
      next
        case False
        then have "z \<in> set ?fl" using that by simp
        moreover have "y \<in> set live" using y sub by blast
        ultimately show ?thesis using dparts(3) by simp
      qed
      ultimately show ?thesis by blast
    qed
    have "disjointBlocks (m @ ?live')"
      unfolding disjointBlocks_append using co(1) dl' cross by blast
    moreover have "\<forall>z\<in>set (m @ ?live'). offset z + size' z \<le> beUint32 buf 0"
      using co(3) enl' by auto
    ultimately show ?thesis by (simp add: um)
  qed
  have "arenaInv buf' ?live'"
    unfolding arenaInv_def fl' bump' cnt' using r' main by blast
  then show ?thesis by (simp add: buf'_def m_def A_def)
qed

lemma allocate_loop_post:
  assumes rng: "12 + beUint32 (buffer a) 4 * 8 \<le> length (buffer a)"
    and le: "i + n \<le> beUint32 (buffer a) 4"
  shows "allocate_loop a sz i n = (Inr None, a)
     \<or> (\<exists>j. i \<le> j \<and> j < i + n \<and> sz \<le> size' (tableEntry (buffer a) j)
          \<and> allocate_loop a sz i n =
              (Inr (Some \<lparr>offset = offset (tableEntry (buffer a) j), size' = sz\<rparr>),
               a\<lparr>buffer :=
                   (if sz < size' (tableEntry (buffer a) j)
                    then putBlocks (buffer a) j
                           [\<lparr>offset = offset (tableEntry (buffer a) j) + sz,
                             size' = size' (tableEntry (buffer a) j) - sz\<rparr>]
                    else removeEntry (buffer a) j)\<rparr>))"
  using le
proof (induction n arbitrary: i)
  case 0
  then show ?case by simp
next
  case (Suc n)
  let ?buf = "buffer a"
  have i: "i < beUint32 ?buf 4" using Suc.prems by simp
  have inr: "12 + i * 8 + 8 \<le> length ?buf" using i rng by simp
  have g1: "getUint32 ?buf (12 + i * 8) = Inr (offset (tableEntry ?buf i))"
    and g2: "getUint32 ?buf (12 + i * 8 + 4) = Inr (size' (tableEntry ?buf i))"
    using inr by (simp_all add: getUint32_def tableEntry_def)
  show ?case
  proof (cases "sz \<le> size' (tableEntry ?buf i)")
    case False
    have "i + 1 + n \<le> beUint32 ?buf 4" using Suc.prems by simp
    from Suc.IH[OF this]
    have ih: "allocate_loop a sz (i + 1) n = (Inr None, a)
     \<or> (\<exists>j. i + 1 \<le> j \<and> j < i + 1 + n \<and> sz \<le> size' (tableEntry ?buf j)
          \<and> allocate_loop a sz (i + 1) n =
              (Inr (Some \<lparr>offset = offset (tableEntry ?buf j), size' = sz\<rparr>),
               a\<lparr>buffer :=
                   (if sz < size' (tableEntry ?buf j)
                    then putBlocks ?buf j
                           [\<lparr>offset = offset (tableEntry ?buf j) + sz,
                             size' = size' (tableEntry ?buf j) - sz\<rparr>]
                    else removeEntry ?buf j)\<rparr>))" .
    have step: "allocate_loop a sz i (Suc n) = allocate_loop a sz (i + 1) n"
      using False g1 g2 by simp
    show ?thesis
      using ih
    proof
      assume "allocate_loop a sz (i + 1) n = (Inr None, a)"
      then have "allocate_loop a sz i (Suc n) = (Inr None, a)" by (simp only: step)
      then show ?thesis by (rule disjI1)
    next
      assume "\<exists>j. i + 1 \<le> j \<and> j < i + 1 + n \<and> sz \<le> size' (tableEntry ?buf j)
          \<and> allocate_loop a sz (i + 1) n =
              (Inr (Some \<lparr>offset = offset (tableEntry ?buf j), size' = sz\<rparr>),
               a\<lparr>buffer :=
                   (if sz < size' (tableEntry ?buf j)
                    then putBlocks ?buf j
                           [\<lparr>offset = offset (tableEntry ?buf j) + sz,
                             size' = size' (tableEntry ?buf j) - sz\<rparr>]
                    else removeEntry ?buf j)\<rparr>)"
      then obtain j where j: "i + 1 \<le> j" "j < i + 1 + n" "sz \<le> size' (tableEntry ?buf j)"
          "allocate_loop a sz (i + 1) n =
              (Inr (Some \<lparr>offset = offset (tableEntry ?buf j), size' = sz\<rparr>),
               a\<lparr>buffer :=
                   (if sz < size' (tableEntry ?buf j)
                    then putBlocks ?buf j
                           [\<lparr>offset = offset (tableEntry ?buf j) + sz,
                             size' = size' (tableEntry ?buf j) - sz\<rparr>]
                    else removeEntry ?buf j)\<rparr>)"
        by blast
      have "i \<le> j \<and> j < i + Suc n" using j(1,2) by simp
      moreover note j(3) j(4)[folded step]
      ultimately show ?thesis by blast
    qed
  next
    case True
    have hit: "allocate_loop a sz i (Suc n) =
              (Inr (Some \<lparr>offset = offset (tableEntry ?buf i), size' = sz\<rparr>),
               a\<lparr>buffer :=
                   (if sz < size' (tableEntry ?buf i)
                    then putBlocks ?buf i
                           [\<lparr>offset = offset (tableEntry ?buf i) + sz,
                             size' = size' (tableEntry ?buf i) - sz\<rparr>]
                    else removeEntry ?buf i)\<rparr>)"
    proof (cases "sz < size' (tableEntry ?buf i)")
      case lt: True
      then show ?thesis
        using True g1 g2 inr by (simp add: viewSet_simp)
    next
      case False
      then show ?thesis
        using True g1 g2 removeFreeBlock_eq[OF i rng] by simp
    qed
    have "i \<le> i \<and> i < i + Suc n" by simp
    then show ?thesis using True hit by blast
  qed
qed

lemma inv_new:
  assumes "newAllocator n M = Inr a"
  shows "arenaInv (buffer a) []"
proof -
  have c: "beUint32 (buffer a) 4 = 0" and len: "12 \<le> length (buffer a)"
    using newAllocator_header(1,5)[OF assms] by (auto simp: getUint32_def split: if_splits)
  have "freeList (buffer a) = []" by (simp add: freeList_def c)
  then show ?thesis using c len by (simp add: arenaInv_def disjointBlocks_def)
qed

lemma allocate_preserves:
  assumes inv: "arenaInv (buffer a) live" and sz: "0 < sz"
    and res: "allocate a sz = (r, a')"
  shows "case r of
           Inr b \<Rightarrow> offset b + size' b < 4294967296 \<longrightarrow> arenaInv (buffer a') (b # live)
         | Inl e \<Rightarrow> arenaInv (buffer a') live"
proof -
  let ?buf = "buffer a"
  let ?c = "beUint32 ?buf 4"
  let ?bump = "beUint32 ?buf 0"
  have rng: "12 + ?c * 8 \<le> length ?buf" using inv by (simp add: arenaInv_def)
  have g4: "getUint32 ?buf 4 = Inr ?c" and g0: "getUint32 ?buf 0 = Inr ?bump"
    using rng by (simp_all add: getUint32_def)
  have al: "allocate a sz = thenDo (allocate_loop a sz 0 ?c) (\<lambda>found a.
       case found of
         Some b \<Rightarrow> (Inr b, a)
       | None \<Rightarrow>
           thenDo (viewGet a 0) (\<lambda>off a.
           thenDo (if off + sz > length (buffer a)
                   then thenDo (expandBuffer a) (\<lambda>_ a. viewGet a 0)
                   else (Inr off, a)) (\<lambda>off a.
           thenDo (viewSet a 0 (off + sz)) (\<lambda>_ a.
             (Inr \<lparr>offset = off, size' = sz\<rparr>, a)))))"
    using g4 by (simp add: allocate_def)
  from allocate_loop_post[OF rng, of 0 ?c sz]
  consider (none) "allocate_loop a sz 0 ?c = (Inr None, a)"
    | (hit) j where "j < ?c" "sz \<le> size' (tableEntry ?buf j)"
        "allocate_loop a sz 0 ?c =
              (Inr (Some \<lparr>offset = offset (tableEntry ?buf j), size' = sz\<rparr>),
               a\<lparr>buffer :=
                   (if sz < size' (tableEntry ?buf j)
                    then putBlocks ?buf j
                           [\<lparr>offset = offset (tableEntry ?buf j) + sz,
                             size' = size' (tableEntry ?buf j) - sz\<rparr>]
                    else removeEntry ?buf j)\<rparr>)"
    by auto
  then show ?thesis
  proof cases
    case hit
    have r: "r = Inr \<lparr>offset = offset (tableEntry ?buf j), size' = sz\<rparr>"
      and a': "buffer a' = (if sz < size' (tableEntry ?buf j)
                    then putBlocks ?buf j
                           [\<lparr>offset = offset (tableEntry ?buf j) + sz,
                             size' = size' (tableEntry ?buf j) - sz\<rparr>]
                    else removeEntry ?buf j)"
      using res unfolding al hit(3) by auto
    show ?thesis
    proof (cases "sz < size' (tableEntry ?buf j)")
      case True
      then show ?thesis
        using inv_split[OF inv hit(1) sz True] by (simp add: r a')
    next
      case False
      then have eq: "size' (tableEntry ?buf j) = sz" using hit(2) by simp
      have "freeList ?buf ! j = \<lparr>offset = offset (tableEntry ?buf j), size' = sz\<rparr>"
        using hit(1) eq[symmetric] by (simp add: freeList_def)
      then show ?thesis
        using inv_remove[OF inv hit(1)] False by (simp add: r a')
    qed
  next
    case none
    show ?thesis
    proof (cases "?bump + sz > length ?buf")
      case False
      have "allocate a sz = (Inr \<lparr>offset = ?bump, size' = sz\<rparr>,
                             a\<lparr>buffer := putUint32 ?buf 0 (?bump + sz)\<rparr>)"
        unfolding al none using g0 False rng by (simp add: viewSet_simp)
      then have r: "r = Inr \<lparr>offset = ?bump, size' = sz\<rparr>"
        and a': "buffer a' = putUint32 ?buf 0 (?bump + sz)"
        using res by auto
      show ?thesis
        using inv_bump[OF inv sz] by (simp add: r a')
    next
      case True
      obtain r1 a1 where e: "expandBuffer a = (r1, a1)" by (cases "expandBuffer a")
      define g where "g = replicate (length ?buf) (0::byte)"
      have b1: "buffer a1 = ?buf @ g"
        using expandBuffer_buffer[of a] e by (simp add: g_def)
      have inv1: "arenaInv (?buf @ g) live" using inv by (rule inv_append)
      have bump1: "beUint32 (?buf @ g) 0 = ?bump" using rng by (simp add: beUint32_append)
      show ?thesis
      proof (cases r1)
        case (Inl err)
        have "allocate a sz = (Inl err, a1)"
          unfolding al none using g0 True e Inl by simp
        then show ?thesis using res inv1 b1 by auto
      next
        case (Inr u)
        have "allocate a sz = (Inr \<lparr>offset = ?bump, size' = sz\<rparr>,
                             a1\<lparr>buffer := putUint32 (?buf @ g) 0 (?bump + sz)\<rparr>)"
          unfolding al none using g0 True e Inr rng b1 bump1
          by (simp add: viewSet_simp getUint32_def)
        then have r: "r = Inr \<lparr>offset = ?bump, size' = sz\<rparr>"
          and a': "buffer a' = putUint32 (?buf @ g) 0 (?bump + sz)"
          using res by auto
        show ?thesis
          using inv_bump[OF inv1 sz] by (simp add: r a' bump1)
      qed
    qed
  qed
qed

lemma free_preserves:
  assumes inv: "arenaInv (buffer a) live" and b: "b \<in> set live"
    and res: "free a b = (r, a')"
  shows "case r of
           Inr u \<Rightarrow> arenaInv (buffer a') (remove1 b live)
         | Inl e \<Rightarrow> arenaInv (buffer a') live"
proof -
  let ?buf = "buffer a"
  let ?c = "beUint32 ?buf 4"
  have rng: "12 + ?c * 8 \<le> length ?buf" using inv by (simp add: arenaInv_def)
  have g4: "getUint32 ?buf 4 = Inr ?c" using rng by (simp add: getUint32_def)
  consider (full) "maxFreeBlocks a \<le> ?c"
    | (out) "\<not> maxFreeBlocks a \<le> ?c" "length ?buf < 12 + ?c * 8 + 4"
    | (part) "\<not> maxFreeBlocks a \<le> ?c" "\<not> length ?buf < 12 + ?c * 8 + 4"
        "length ?buf < 12 + ?c * 8 + 8"
    | (ok) "?c < maxFreeBlocks a" "12 + ?c * 8 + 8 \<le> length ?buf"
    by linarith
  then show ?thesis
  proof cases
    case full
    then have "free a b = (Inl FreeListFull, a)" by (simp add: free_eq[OF g4])
    then show ?thesis using res inv by auto
  next
    case out
    then have "free a b = (Inl RangeError, a)" by (simp add: free_eq[OF g4])
    then show ?thesis using res inv by auto
  next
    case part
    then have "free a b = (Inl RangeError, a\<lparr>buffer := putUint32 ?buf (12 + ?c * 8) (offset b)\<rparr>)"
      by (simp add: free_eq[OF g4])
    then show ?thesis using res inv_free_partial[OF inv] by auto
  next
    case ok
    from free_result(1)[OF g4 ok, of b] res
    have r: "r = Inr ()"
      and a': "buffer a' = putUint32 (putBlocks (appendFree ?buf b) 0
                                 (coalesced (appendFree ?buf b))) 4
                             (length (coalesced (appendFree ?buf b)))"
      by auto
    show ?thesis using inv_free[OF inv b ok(2)] by (simp add: r a')
  qed
qed

lemma run_preserves:
  assumes "arenaInv (buffer a) live" "respectsAPI (a, live) cs" "fits32 (a, live) cs"
    "run (a, live) cs = (a', live')"
  shows "arenaInv (buffer a') live'"
  using assms
proof (induction cs arbitrary: a live)
  case Nil
  then show ?case by simp
next
  case (Cons c cs)
  show ?case
  proof (cases c)
    case (Allocate sz)
    obtain r a1 where al: "allocate a sz = (r, a1)" by (cases "allocate a sz")
    have sz: "0 < sz" using Cons.prems(2) Allocate by simp
    note p = allocate_preserves[OF Cons.prems(1) sz al]
    show ?thesis
    proof (cases r)
      case (Inl e)
      have st: "step (a, live) c = (a1, live)" using al Inl Allocate by simp
      have "arenaInv (buffer a1) live" using p Inl by simp
      then show ?thesis
        using Cons.prems(2,3,4) Cons.IH[of a1 live] st Allocate by simp
    next
      case (Inr b)
      have st: "step (a, live) c = (a1, b # live)" using al Inr Allocate by simp
      have "offset b + size' b < 4294967296"
        using Cons.prems(3) Allocate al Inr by simp
      then have "arenaInv (buffer a1) (b # live)" using p Inr by simp
      then show ?thesis
        using Cons.prems(2,3,4) Cons.IH[of a1 "b # live"] st Allocate by simp
    qed
  next
    case (Free b)
    obtain r a1 where fr: "free a b = (r, a1)" by (cases "free a b")
    have b: "b \<in> set live" using Cons.prems(2) Free by simp
    note p = free_preserves[OF Cons.prems(1) b fr]
    show ?thesis
    proof (cases r)
      case (Inl e)
      have st: "step (a, live) c = (a1, live)" using fr Inl Free by simp
      have "arenaInv (buffer a1) live" using p Inl by simp
      then show ?thesis
        using Cons.prems(2,3,4) Cons.IH[of a1 live] st Free by simp
    next
      case (Inr u)
      have st: "step (a, live) c = (a1, remove1 b live)" using fr Inr Free by simp
      have "arenaInv (buffer a1) (remove1 b live)" using p Inr by simp
      then show ?thesis
        using Cons.prems(2,3,4) Cons.IH[of a1 "remove1 b live"] st Free by simp
    qed
  qed
qed

text \<open>
  C2, amended. Take any sequence of \<^verbatim>\<open>allocate\<close> and \<^verbatim>\<open>free\<close> calls on a freshly
  constructed allocator that respects the API (every requested size is positive,
  every freed block is live: it was returned by \<^verbatim>\<open>allocate\<close> and not freed since) and
  in which every block that \<^verbatim>\<open>allocate\<close> returns ends below \<open>2^32\<close>, so that the
  bump offset in the 32-bit header never wraps. After the sequence, calls that threw
  included, any two live blocks have disjoint byte ranges and no live block overlaps
  an entry of the free table.
\<close>

theorem live_blocks_disjoint:
  assumes new: "newAllocator n M = Inr a0"
    and api: "respectsAPI (a0, []) cs" and fit: "fits32 (a0, []) cs"
    and fin: "run (a0, []) cs = (a, live)"
  shows "(\<forall>i j. i < j \<and> j < length live \<longrightarrow>
            blockRange (live ! i) \<inter> blockRange (live ! j) = {})
       \<and> (\<forall>b\<in>set live. \<forall>e\<in>set (freeList (buffer a)).
            blockRange b \<inter> blockRange e = {})"
proof -
  have inv: "arenaInv (buffer a) live"
    by (rule run_preserves[OF inv_new[OF new] api fit fin])
  then have d: "disjointBlocks (freeList (buffer a) @ live)" by (simp add: arenaInv_def)
  have dl: "disjointBlocks live"
    and cross: "\<forall>x\<in>set (freeList (buffer a)). \<forall>y\<in>set live. blockRange x \<inter> blockRange y = {}"
    using d unfolding disjointBlocks_append by blast+
  have p1: "\<forall>i j. i < j \<and> j < length live \<longrightarrow>
            blockRange (live ! i) \<inter> blockRange (live ! j) = {}"
  proof (intro allI impI)
    fix i j assume ij: "i < j \<and> j < length live"
    then have "live ! i \<noteq> live ! j"
      using dl by (auto simp: disjointBlocks_def distinct_conv_nth)
    moreover have "live ! i \<in> set live" "live ! j \<in> set live" using ij by simp_all
    ultimately show "blockRange (live ! i) \<inter> blockRange (live ! j) = {}"
      using dl unfolding disjointBlocks_def by blast
  qed
  have p2: "\<forall>b\<in>set live. \<forall>e\<in>set (freeList (buffer a)). blockRange b \<inter> blockRange e = {}"
    using cross by (auto simp: Int_commute)
  show ?thesis using p1 p2 by blast
qed

theorem live_blocks_disjoint_witness:
  "newAllocator 32 2 = Inr wrap0
   \<and> respectsAPI (wrap0, []) reuseCalls \<and> fits32 (wrap0, []) reuseCalls
   \<and> snd (run (wrap0, []) reuseCalls)
        = [\<lparr>offset = 28, size' = 2\<rparr>, \<lparr>offset = 32, size' = 4\<rparr>]
   \<and> freeList (buffer (fst (run (wrap0, []) reuseCalls))) = [\<lparr>offset = 30, size' = 2\<rparr>]
   \<and> blockRange \<lparr>offset = 28, size' = 2\<rparr> \<inter> blockRange \<lparr>offset = 32, size' = 4\<rparr> = {}
   \<and> blockRange \<lparr>offset = 28, size' = 2\<rparr> \<inter> blockRange \<lparr>offset = 30, size' = 2\<rparr> = {}"
proof -
  have api: "respectsAPI (wrap0, []) reuseCalls" by code_simp
  have fit: "fits32 (wrap0, []) reuseCalls" by code_simp
  have live: "snd (run (wrap0, []) reuseCalls)
        = [\<lparr>offset = 28, size' = 2\<rparr>, \<lparr>offset = 32, size' = 4\<rparr>]"
    by code_simp
  have fl: "freeList (buffer (fst (run (wrap0, []) reuseCalls))) = [\<lparr>offset = 30, size' = 2\<rparr>]"
    by code_simp
  have fin: "run (wrap0, []) reuseCalls
        = (fst (run (wrap0, []) reuseCalls), snd (run (wrap0, []) reuseCalls))"
    by simp
  note t = live_blocks_disjoint [OF newAllocator_wrap0 api fit fin]
  have r1: "blockRange \<lparr>offset = 28, size' = 2\<rparr> \<inter> blockRange \<lparr>offset = 32, size' = 4\<rparr> = {}"
    using t [THEN conjunct1, rule_format, of 0 1] by (simp add: live)
  have r2: "blockRange \<lparr>offset = 28, size' = 2\<rparr> \<inter> blockRange \<lparr>offset = 30, size' = 2\<rparr> = {}"
    using t [THEN conjunct2, rule_format, of "\<lparr>offset = 28, size' = 2\<rparr>" "\<lparr>offset = 30, size' = 2\<rparr>"]
    by (simp add: live fl)
  show ?thesis using newAllocator_wrap0 api fit live fl r1 r2 by blast
qed

theorem live_blocks_disjoint_counterexample:
  "newAllocator 32 2 = Inr wrap0
   \<and> respectsAPI (wrap0, []) wrapCalls
   \<and> snd (run (wrap0, []) wrapCalls)
        = [\<lparr>offset = 28, size' = 4\<rparr>, \<lparr>offset = 28, size' = 4294967296\<rparr>]
   \<and> 28 \<in> blockRange \<lparr>offset = 28, size' = 4\<rparr> \<inter> blockRange \<lparr>offset = 28, size' = 4294967296\<rparr>"
proof -
  have api: "respectsAPI (wrap0, []) wrapCalls" by code_simp
  have live: "snd (run (wrap0, []) wrapCalls)
        = [\<lparr>offset = 28, size' = 4\<rparr>, \<lparr>offset = 28, size' = 4294967296\<rparr>]"
    by code_simp
  have ov: "28 \<in> blockRange \<lparr>offset = 28, size' = 4\<rparr> \<inter> blockRange \<lparr>offset = 28, size' = 4294967296\<rparr>"
    by (simp add: blockRange_def)
  show ?thesis using newAllocator_wrap0 api live ov by blast
qed

section \<open>The array round trip through the recorded offset\<close>

lemma beUint32_replicate0: "off + 4 \<le> n \<Longrightarrow> beUint32 (replicate n 0) off = 0"
  by (simp add: beUint32_def)

lemma newAllocator_test: "newAllocator 1024 100 = Inr testAllocator"
  by (simp add: newAllocator_eq testAllocator_def)

lemma pushedArray_eq:
  "pushedArray =
     (Inr 0,
      \<lparr>buffer =
         putUint32 (putUint32 (putUint32 (putUint32 (putUint32 (putUint32 (putUint32
         (putUint32 (putUint32 (putUint32 (putUint32 (putUint32
           (buffer testAllocator)
           0 828) 812 0) 816 828) 8 1) 812 0) 816 2) 820 42) 812 1) 816 2) 824 84) 812 2) 816 2,
       maxFreeBlocks = 100,
       structures = [0 \<mapsto> (828, \<lparr>length' = 2, capacity = 2,
                                      block = \<lparr>offset = 812, size' = 16\<rparr>\<rparr>)],
       nextId = 1\<rparr>)"
proof -
  have s2: "Suc (Suc 0) = 2" by simp
  show ?thesis
    unfolding pushedArray_def testAllocator_def
    by (simp add: newResizableArray_def allocate_def registerStructure_def
        saveMetadata_def push_def updateArray_def viewSet_simp getUint32_def
        beUint32_putUint32_same beUint32_putUint32_other beUint32_replicate0 Let_def s2)
qed

text \<open>
  C1. On the allocator of 1024 bytes an array of capacity 2 is constructed and 42 and
  84 are pushed, without a resize: the array has length 2, capacity 2, the block at
  812 and the elements 42 and 84. \<^verbatim>\<open>getStructureOffset\<close> returns 828 for it, the bump
  offset at the time of the registration, which is the end of the array's block, not
  its start. \<^verbatim>\<open>restore\<close> with this offset returns, and leaves the array with length 0
  and capacity 0, read from the unused bytes at 828, so that reading element 0 is out
  of bounds: the round trip that the claim states does not hold as the code is.
\<close>

theorem restore_round_trip_fails:
  "newAllocator 1024 100 = Inr testAllocator
   \<and> fst pushedArray = Inr 0
   \<and> fields (snd pushedArray) 0 = Some (2, 2, \<lparr>offset = 812, size' = 16\<rparr>)
   \<and> get (snd pushedArray) 0 0 = Inr 42 \<and> get (snd pushedArray) 0 1 = Inr 84
   \<and> getStructureOffset (snd pushedArray) 0 = Inr 828
   \<and> fst (callRestore (snd pushedArray) 0 828) = Inr ()
   \<and> fields (snd (callRestore (snd pushedArray) 0 828)) 0
        = Some (0, 0, \<lparr>offset = 828, size' = 16\<rparr>)
   \<and> get (snd (callRestore (snd pushedArray) 0 828)) 0 0 = Inl IndexOutOfBounds"
  unfolding pushedArray_eq
  by (simp add: newAllocator_test fields_def get_def getStructureOffset_def callRestore_def
      restore_def loadMetadata_def getUint32_def testAllocator_def
      beUint32_putUint32_same beUint32_putUint32_other beUint32_replicate0)

section \<open>The registry table and the data region\<close>

lemma allocate_fresh:
  assumes c4: "getUint32 (buffer a) 4 = Inr 0" and c0: "getUint32 (buffer a) 0 = Inr off"
    and c8: "getUint32 (buffer a) 8 = Inr 0"
  shows "fst (allocate a sz) = Inr \<lparr>offset = off, size' = sz\<rparr>"
proof (cases "off + sz > length (buffer a)")
  case False
  have "4 \<le> length (buffer a)" using c0 by (auto simp: getUint32_def split: if_splits)
  then show ?thesis using c4 c0 False by (simp add: allocate_def viewSet_simp)
next
  case True
  have len4: "4 \<le> length (buffer a)" and off: "beUint32 (buffer a) 0 = off"
    using c0 by (auto simp: getUint32_def split: if_splits)
  obtain r a' where e: "expandBuffer a = (r, a')" by (cases "expandBuffer a")
  have r: "r = Inr ()" using expandBuffer_no_structures[OF c8] e by simp
  have buf': "buffer a' = buffer a @ replicate (length (buffer a)) 0"
    using expandBuffer_buffer[of a] e by simp
  have get': "getUint32 (buffer a') 0 = Inr off"
    using len4 off by (simp add: buf' getUint32_def beUint32_append)
  show ?thesis
    using c4 c0 True e r get' len4 buf' by (simp add: allocate_def viewSet_simp)
qed

lemma newAllocator_small: "newAllocator 24 1 = Inr smallAllocator"
proof -
  have "putUint32 (putUint32 (putUint32 (replicate 24 0) 0 (12 + 1 * 8)) 4 0) 8 0
          = buffer smallAllocator"
    unfolding smallAllocator_def by code_simp
  then show ?thesis
    by (simp add: newAllocator_eq smallAllocator_def)
qed

text \<open>
  C3, amended. For an allocator constructed with a free-list capacity \<open>M\<close> such
  that \<open>12 + M * 8\<close> is below \<open>2^32\<close> and so fits the 32-bit header field, the bump
  offset in the fresh header is \<open>12 + M * 8\<close>, the address at which the registry
  table starts. A \<^verbatim>\<open>registerStructure\<close> call on an allocator of that capacity whose
  header reads the structure count \<open>c\<close> and the bump offset \<open>off\<close> has its entry at
  \<open>12 + M * 8 + c * 8\<close>, at or above that start: when these eight bytes lie inside
  the arena the call returns the next id and the entry then reads that id and
  \<open>off\<close>, when they do not the call throws a range error, and in both cases no byte
  is changed other than these eight and the structure count at 8. Every first
  allocation on the fresh allocator, whatever its size, returns the block that starts
  at \<open>12 + M * 8\<close>, the address of the first registry entry.
\<close>

theorem registry_in_data_region:
  assumes new: "newAllocator n M = Inr a" and fits: "12 + M * 8 < 4294967296"
  shows "getUint32 (buffer a) 0 = Inr (12 + M * 8)
    \<and> (\<forall>(b::Allocator) c off s. maxFreeBlocks b = M \<and> getUint32 (buffer b) 8 = Inr c
           \<and> getUint32 (buffer b) 0 = Inr off \<longrightarrow>
         12 + M * 8 \<le> 12 + M * 8 + c * 8
         \<and> (12 + M * 8 + c * 8 + 8 \<le> length (buffer b) \<longrightarrow>
              fst (registerStructure b s) = Inr (nextId b)
              \<and> getUint32 (buffer (snd (registerStructure b s))) (12 + M * 8 + c * 8)
                    = Inr (nextId b mod 4294967296)
              \<and> getUint32 (buffer (snd (registerStructure b s))) (12 + M * 8 + c * 8 + 4)
                    = Inr off)
         \<and> (length (buffer b) < 12 + M * 8 + c * 8 + 8 \<longrightarrow>
              fst (registerStructure b s) = Inl RangeError)
         \<and> (\<forall>j. j < 8 \<or> (12 \<le> j \<and> j < 12 + M * 8 + c * 8) \<or> 12 + M * 8 + c * 8 + 8 \<le> j \<longrightarrow>
                buffer (snd (registerStructure b s)) ! j = buffer b ! j))
    \<and> (\<forall>sz. fst (allocate a sz) = Inr \<lparr>offset = 12 + M * 8, size' = sz\<rparr>)"
proof (intro conjI allI impI)
  show bump: "getUint32 (buffer a) 0 = Inr (12 + M * 8)"
    using newAllocator_header(4)[OF new] fits by simp
  show "fst (allocate a sz) = Inr \<lparr>offset = 12 + M * 8, size' = sz\<rparr>" for sz
    using newAllocator_header(5,6)[OF new] bump by (intro allocate_fresh)
next
  fix b :: Allocator and c off s
  assume h: "maxFreeBlocks b = M \<and> getUint32 (buffer b) 8 = Inr c
           \<and> getUint32 (buffer b) 0 = Inr off"
  have offb: "off < 4294967296" using h getUint32_bound by blast
  note reg = registerStructure_eq[of b c off s, OF h[THEN conjunct2, THEN conjunct1]
      h[THEN conjunct2, THEN conjunct2]]
  have M: "maxFreeBlocks b = M" using h by simp
  show "12 + M * 8 \<le> 12 + M * 8 + c * 8" by simp
  show "fst (registerStructure b s) = Inr (nextId b)"
    if "12 + M * 8 + c * 8 + 8 \<le> length (buffer b)"
    using that by (simp add: reg M)
  show "getUint32 (buffer (snd (registerStructure b s))) (12 + M * 8 + c * 8)
               = Inr (nextId b mod 4294967296)"
    if "12 + M * 8 + c * 8 + 8 \<le> length (buffer b)"
    using that
    by (simp add: reg M getUint32_def beUint32_putUint32_other beUint32_putUint32_same)
  show "getUint32 (buffer (snd (registerStructure b s))) (12 + M * 8 + c * 8 + 4) = Inr off"
    if "12 + M * 8 + c * 8 + 8 \<le> length (buffer b)"
    using that offb
    by (simp add: reg M getUint32_def beUint32_putUint32_other beUint32_putUint32_same)
  show "fst (registerStructure b s) = Inl RangeError"
    if "length (buffer b) < 12 + M * 8 + c * 8 + 8"
    using that by (simp add: reg M)
  show "buffer (snd (registerStructure b s)) ! j = buffer b ! j"
    if "j < 8 \<or> (12 \<le> j \<and> j < 12 + M * 8 + c * 8) \<or> 12 + M * 8 + c * 8 + 8 \<le> j" for j
    using that by (auto simp: reg M putUint32_nth_other)
qed

theorem registry_in_data_region_witness:
  "newAllocator 32 1 = Inr freshAllocator \<and> (12::nat) + 1 * 8 < 4294967296
   \<and> getUint32 (buffer freshAllocator) 0 = Inr 20
   \<and> getUint32 (buffer freshAllocator) 8 = Inr 0
   \<and> fst (registerStructure freshAllocator someArray) = Inr 0
   \<and> getUint32 (buffer (snd (registerStructure freshAllocator someArray))) 20 = Inr 0
   \<and> getUint32 (buffer (snd (registerStructure freshAllocator someArray))) 24 = Inr 20
   \<and> buffer (snd (registerStructure freshAllocator someArray)) ! 3
        = buffer freshAllocator ! 3
   \<and> maxFreeBlocks smallAllocator = 1 \<and> getUint32 (buffer smallAllocator) 8 = Inr 0
   \<and> getUint32 (buffer smallAllocator) 0 = Inr 20
   \<and> length (buffer smallAllocator) < 12 + 1 * 8 + 0 * 8 + 8
   \<and> fst (registerStructure smallAllocator someArray) = Inl RangeError
   \<and> fst (allocate freshAllocator 8) = Inr \<lparr>offset = 20, size' = 8\<rparr>
   \<and> fst (allocate freshAllocator 1000) = Inr \<lparr>offset = 20, size' = 1000\<rparr>"
proof -
  have fits: "12 + 1 * 8 < (4294967296::nat)" by simp
  have c: "getUint32 (buffer freshAllocator) 8 = Inr 0"
    by (simp add: freshAllocator_def getUint32_def beUint32_def)
  note t = registry_in_data_region [OF newAllocator_fresh fits]
  have bump: "getUint32 (buffer freshAllocator) 0 = Inr 20"
    using t by simp
  have pre: "maxFreeBlocks freshAllocator = 1 \<and> getUint32 (buffer freshAllocator) 8 = Inr 0
      \<and> getUint32 (buffer freshAllocator) 0 = Inr 20"
    using c bump by (simp add: freshAllocator_def)
  have inr: "12 + 1 * 8 + 0 * 8 + 8 \<le> length (buffer freshAllocator)"
    by (simp add: freshAllocator_def)
  note tb = t [THEN conjunct2, THEN conjunct1, rule_format, OF pre, of someArray]
  have reg: "fst (registerStructure freshAllocator someArray) = Inr 0
     \<and> getUint32 (buffer (snd (registerStructure freshAllocator someArray))) 20 = Inr 0
     \<and> getUint32 (buffer (snd (registerStructure freshAllocator someArray))) 24 = Inr 20"
    using tb [THEN conjunct2, THEN conjunct1, rule_format, OF inr]
    by (simp add: freshAllocator_def)
  have keep: "buffer (snd (registerStructure freshAllocator someArray)) ! 3
          = buffer freshAllocator ! 3"
    using tb [THEN conjunct2, THEN conjunct2, THEN conjunct2, rule_format, of 3] by simp
  have spre: "maxFreeBlocks smallAllocator = 1 \<and> getUint32 (buffer smallAllocator) 8 = Inr 0
      \<and> getUint32 (buffer smallAllocator) 0 = Inr 20"
    by (simp add: smallAllocator_def getUint32_def beUint32_def)
  have sout: "length (buffer smallAllocator) < 12 + 1 * 8 + 0 * 8 + 8"
    by (simp add: smallAllocator_def)
  have thr: "fst (registerStructure smallAllocator someArray) = Inl RangeError"
    using t [THEN conjunct2, THEN conjunct1, rule_format, OF spre, of someArray,
             THEN conjunct2, THEN conjunct2, THEN conjunct1, rule_format, OF sout] .
  have al: "fst (allocate freshAllocator 8) = Inr \<lparr>offset = 20, size' = 8\<rparr>"
    "fst (allocate freshAllocator 1000) = Inr \<lparr>offset = 20, size' = 1000\<rparr>"
    using t [THEN conjunct2, THEN conjunct2, rule_format, of 8]
      t [THEN conjunct2, THEN conjunct2, rule_format, of 1000] by simp_all
  show ?thesis
    using newAllocator_fresh c bump reg keep spre sout thr al by simp
qed

section \<open>Loading a buffer that records a structure\<close>

text \<open>
  C4. The buffer is the one of the repository's test: an allocator of 1024 bytes on
  which an array of capacity 2 has been constructed and the values 42 and 84 pushed.
  Its header records one structure. \<^verbatim>\<open>fromBuffer\<close> fails on it, as the claim says, but
  not with the not-found error that \<^verbatim>\<open>restoreStructures\<close> is written to throw: the
  map of the new allocator is empty, so \<^verbatim>\<open>this._structures.get(id)\<close> is \<^verbatim>\<open>undefined\<close>
  and reading its \<^verbatim>\<open>struct\<close> property throws a TypeError before the check is reached.
\<close>

theorem fromBuffer_throws_TypeError:
  "length (buffer (snd pushedArray)) = 1024
   \<and> getUint32 (buffer (snd pushedArray)) 8 = Inr 1
   \<and> fromBuffer (buffer (snd pushedArray)) = Inl TypeError
   \<and> fromBuffer (buffer (snd pushedArray)) \<noteq> Inl StructureNotFound"
proof -
  have len: "length (buffer (snd pushedArray)) = 1024"
    by (simp add: pushedArray_eq testAllocator_def)
  have h: "getUint32 (buffer (snd pushedArray)) 8 = Inr 1"
    by (simp add: pushedArray_eq testAllocator_def getUint32_def
        beUint32_putUint32_same beUint32_putUint32_other)
  have "fromBuffer (buffer (snd pushedArray)) = Inl TypeError"
    using fromBuffer_eq[OF h] len by simp
  then show ?thesis using len h by simp
qed

end
